theory Spec2Isabelle
  imports Main "HOL-Library.Word"
begin

unbundle bit_operations_syntax

section \<open>The machine state of cupid-8.c\<close>

text \<open>
  The interpreter is one C file. Its state is the struct \<open>Chip8\<close> together with the
  file-scope globals that \<open>emulateCycle\<close> reads and writes (\<open>screen_width\<close>,
  \<open>screen_height\<close>, \<open>extended_mode\<close> and the two colour triples). Arrays are
  functions from an index to a cell; every access whose index the program controls
  (\<open>memory\<close>, \<open>stack\<close>, \<open>keys\<close>) is guarded by the array's size, and an access
  outside it, which is undefined in C, ends the cycle with \<open>OutOfBounds\<close>.
  The register index is a nibble of the opcode and so always below 16; an index into
  \<open>display\<close> is computed modulo the screen size and is shown below to stay inside
  the array. \<open>SDL_SetWindowSize\<close> and the rendering have no part in the state.
\<close>

type_synonym u8 = "8 word"
type_synonym u16 = "16 word"

abbreviation MEMORY_SIZE :: nat where "MEMORY_SIZE \<equiv> 4096"
abbreviation REGISTER_COUNT :: nat where "REGISTER_COUNT \<equiv> 16"
abbreviation STACK_SIZE :: nat where "STACK_SIZE \<equiv> 16"
abbreviation NORMAL_WIDTH :: nat where "NORMAL_WIDTH \<equiv> 64"
abbreviation NORMAL_HEIGHT :: nat where "NORMAL_HEIGHT \<equiv> 32"
abbreviation EXT_WIDTH :: nat where "EXT_WIDTH \<equiv> 128"
abbreviation EXT_HEIGHT :: nat where "EXT_HEIGHT \<equiv> 64"
abbreviation MAX_WIDTH :: nat where "MAX_WIDTH \<equiv> EXT_WIDTH"
abbreviation MAX_HEIGHT :: nat where "MAX_HEIGHT \<equiv> EXT_HEIGHT"
abbreviation START_ADDRESS :: nat where "START_ADDRESS \<equiv> 0x200"

record chip8 =
  memory :: "nat \<Rightarrow> u8"
  V :: "nat \<Rightarrow> u8"
  I :: u16
  pc :: u16
  stack :: "nat \<Rightarrow> u16"
  sp :: u8
  delay_timer :: u8
  sound_timer :: u8
  display :: "nat \<Rightarrow> u8"
  keys :: "nat \<Rightarrow> u8"
  screen_width :: nat
  screen_height :: nat
  extended_mode :: nat
  fg :: "u8 \<times> u8 \<times> u8"
  bg :: "u8 \<times> u8 \<times> u8"

text \<open>How a cycle can end without a next state.\<close>

datatype stop =
  ExitProcess nat      \<comment> \<open>\<open>exit(code)\<close>\<close>
| OutOfBounds          \<comment> \<open>an array access outside the array: undefined behaviour\<close>
| WaitsForever         \<comment> \<open>the key wait of Fx0A never sees a key\<close>

text \<open>What the program takes from SDL: key symbols and events.\<close>

datatype keycode =
  SDLK_1 | SDLK_2 | SDLK_3 | SDLK_4 | SDLK_q | SDLK_w | SDLK_e | SDLK_r
| SDLK_a | SDLK_s | SDLK_d | SDLK_f | SDLK_z | SDLK_x | SDLK_c | SDLK_v
| SDLK_other

datatype sdl_event = SDL_KEYDOWN keycode | SDL_KEYUP keycode | SDL_QUIT | SDL_OTHER

section \<open>Initialisation and program loading\<close>

definition chip8_fontset :: "u8 list" where
  "chip8_fontset =
    [0xF0, 0x90, 0x90, 0x90, 0xF0,
     0x20, 0x60, 0x20, 0x20, 0x70,
     0xF0, 0x10, 0xF0, 0x80, 0xF0,
     0xF0, 0x10, 0xF0, 0x10, 0xF0,
     0x90, 0x90, 0xF0, 0x10, 0x10,
     0xF0, 0x80, 0xF0, 0x10, 0xF0,
     0xF0, 0x80, 0xF0, 0x90, 0xF0,
     0xF0, 0x10, 0x20, 0x40, 0x40,
     0xF0, 0x90, 0xF0, 0x90, 0xF0,
     0xF0, 0x90, 0xF0, 0x10, 0xF0,
     0xF0, 0x90, 0xF0, 0x90, 0x90,
     0xE0, 0x90, 0xE0, 0x90, 0xE0,
     0xF0, 0x80, 0x80, 0x80, 0xF0,
     0xE0, 0x90, 0x90, 0x90, 0xE0,
     0xF0, 0x80, 0xF0, 0x80, 0xF0,
     0xF0, 0x80, 0xF0, 0x80, 0x80]"

text \<open>
  The globals as the C initialisers leave them: the struct is zero (static storage),
  the screen is 64 by 32, normal mode, white on black.
\<close>

definition static_state :: chip8 where
  "static_state =
    \<lparr> memory = (\<lambda>_. 0), V = (\<lambda>_. 0), I = 0, pc = 0, stack = (\<lambda>_. 0), sp = 0,
      delay_timer = 0, sound_timer = 0, display = (\<lambda>_. 0), keys = (\<lambda>_. 0),
      screen_width = NORMAL_WIDTH, screen_height = NORMAL_HEIGHT, extended_mode = 0,
      fg = (255, 255, 255), bg = (0, 0, 0) \<rparr>"

text \<open>\<open>memset(a, 0, sizeof a)\<close> on an array of \<open>n\<close> cells.\<close>

definition zero_cells :: "nat \<Rightarrow> (nat \<Rightarrow> 'a::zero) \<Rightarrow> (nat \<Rightarrow> 'a)" where
  "zero_cells n a = (\<lambda>i. if i < n then 0 else a i)"

text \<open>\<open>memcpy(a + base, bytes, length bytes)\<close>.\<close>

definition copy_in :: "nat \<Rightarrow> 'a list \<Rightarrow> (nat \<Rightarrow> 'a) \<Rightarrow> (nat \<Rightarrow> 'a)" where
  "copy_in base bytes a =
    (\<lambda>i. if base \<le> i \<and> i < base + length bytes then bytes ! (i - base) else a i)"

definition initializeChip8 :: "chip8 \<Rightarrow> chip8" where
  "initializeChip8 s =
    s\<lparr> pc := of_nat START_ADDRESS, I := 0, sp := 0,
       memory := copy_in 0x50 chip8_fontset (zero_cells MEMORY_SIZE (memory s)),
       V := zero_cells REGISTER_COUNT (V s),
       stack := zero_cells STACK_SIZE (stack s),
       display := zero_cells (MAX_WIDTH * MAX_HEIGHT) (display s),
       keys := zero_cells 16 (keys s),
       delay_timer := 0, sound_timer := 0 \<rparr>"

text \<open>
  What \<open>loadROM\<close> gets from the C library for the file it has opened. The code
  keeps none of the results of \<open>fseek\<close> and \<open>fread\<close> and does not test the result
  of \<open>ftell\<close>, so the three are independent inputs: the bytes the file holds, the
  value \<open>ftell\<close> returns after the seek to the end (the length of an ordinary file,
  \<open>-1\<close> when the stream cannot be positioned), and the number of items \<open>fread\<close>
  stores before it stops (fewer than asked for on a read error).
\<close>

record rom_file =
  contents :: "u8 list"
  ftell_result :: int
  fread_count :: nat

text \<open>An ordinary file: \<open>ftell\<close> reports its length and \<open>fread\<close> delivers all of it.\<close>

definition plain_file :: "u8 list \<Rightarrow> rom_file" where
  "plain_file bytes =
    \<lparr> contents = bytes, ftell_result = int (length bytes), fread_count = length bytes \<rparr>"

text \<open>The \<open>long\<close> \<open>rom_size\<close> passed as the \<open>size_t\<close> count of \<open>fread\<close> (64 bits).\<close>

definition size_t_of :: "int \<Rightarrow> nat" where
  "size_t_of n = nat (n mod 2 ^ 64)"

text \<open>The bytes \<open>fread\<close> has stored at \<open>memory + START_ADDRESS\<close>.\<close>

definition store_rom :: "u8 list \<Rightarrow> chip8 \<Rightarrow> chip8" where
  "store_rom stored s = s\<lparr> memory := copy_in START_ADDRESS stored (memory s) \<rparr>"

text \<open>
  \<open>loadROM\<close>. The file named on the command line is \<open>None\<close> when \<open>fopen\<close> fails.
  Otherwise the only test is \<open>rom_size > MEMORY_SIZE - START_ADDRESS\<close> on the value
  of \<open>ftell\<close>; \<open>fread\<close> is then asked for \<open>rom_size\<close> items and stores what it
  gets, at most that many and at most what the file holds. Bytes stored past the end
  of \<open>memory\<close> (possible only when \<open>rom_size\<close> is negative) are an access outside
  the array. The result is the C return value (0 or 1) and the state.
\<close>

definition loadROM :: "rom_file option \<Rightarrow> chip8 \<Rightarrow> stop + nat \<times> chip8" where
  "loadROM rom s =
    (case rom of
       None \<Rightarrow> Inr (0, s)
     | Some f \<Rightarrow>
         (let rom_size = ftell_result f in
          if rom_size > int (MEMORY_SIZE - START_ADDRESS) then Inr (0, s)
          else
            (let stored = take (min (fread_count f) (size_t_of rom_size)) (contents f) in
             if START_ADDRESS + length stored \<le> MEMORY_SIZE then Inr (1, store_rom stored s)
             else Inl OutOfBounds)))"

text \<open>
  \<open>main\<close> up to its loop. The loop is the only caller of \<open>emulateCycle\<close>, so a run
  that returns before it has executed no cycle. The three booleans say whether
  \<open>SDL_Init\<close>, \<open>SDL_CreateWindow\<close> and \<open>SDL_CreateRenderer\<close> succeed (a failure
  to open the audio device only prints a message).
\<close>

datatype startup = Returned nat | EntersLoop chip8

definition main_startup :: "nat \<Rightarrow> rom_file option \<Rightarrow> bool \<Rightarrow> bool \<Rightarrow> bool \<Rightarrow> stop + startup" where
  "main_startup argc rom sdl_ok window_ok renderer_ok =
    (if argc < 2 then Inr (Returned 1)
     else
       (case loadROM rom (initializeChip8 static_state) of
          Inl e \<Rightarrow> Inl e
        | Inr (loaded, s) \<Rightarrow>
            if loaded = 0 then Inr (Returned 1)
            else if \<not> sdl_ok then Inr (Returned 1)
            else if \<not> window_ok then Inr (Returned 1)
            else if \<not> renderer_ok then Inr (Returned 1)
            else Inr (EntersLoop s)))"

section \<open>Fetch and scrolling\<close>

text \<open>\<open>memory[pc] << 8 | memory[pc + 1]\<close>; both reads must lie in the array.\<close>

definition fetchOpcode :: "chip8 \<Rightarrow> stop + u16" where
  "fetchOpcode s =
    (if unat (pc s) + 1 < MEMORY_SIZE
     then Inr (push_bit 8 (ucast (memory s (unat (pc s)))) OR ucast (memory s (unat (pc s) + 1)))
     else Inl OutOfBounds)"

definition set_pixel :: "nat \<Rightarrow> u8 \<Rightarrow> chip8 \<Rightarrow> chip8" where
  "set_pixel idx v s = s\<lparr> display := (display s)(idx := v) \<rparr>"

text \<open>
  \<open>scroll_horizontal\<close>: \<open>direction > 0\<close> moves each row right by 4 (x runs down
  from \<open>screen_width - 1\<close> to 4), otherwise left by 4; the vacated cells are zeroed.
\<close>

definition scroll_horizontal :: "chip8 \<Rightarrow> int \<Rightarrow> chip8" where
  "scroll_horizontal s direction =
    (let shift = 4 in
     if direction > 0 then
       fold (\<lambda>y s1.
          fold (\<lambda>x s3. set_pixel (y * MAX_WIDTH + x) 0 s3) [0..<shift]
            (fold (\<lambda>x s2. set_pixel (y * MAX_WIDTH + x) (display s2 (y * MAX_WIDTH + (x - shift))) s2)
               (rev [shift..<screen_width s]) s1))
         [0..<screen_height s] s
     else
       fold (\<lambda>y s1.
          fold (\<lambda>x s3. set_pixel (y * MAX_WIDTH + x) 0 s3) [screen_width s - shift..<screen_width s]
            (fold (\<lambda>x s2. set_pixel (y * MAX_WIDTH + x) (display s2 (y * MAX_WIDTH + (x + shift))) s2)
               [0..<screen_width s - shift] s1))
         [0..<screen_height s] s)"

text \<open>\<open>scroll_down\<close>: rows move down by \<open>n\<close>, from the bottom up; the top \<open>n\<close> rows are zeroed.\<close>

definition scroll_down :: "chip8 \<Rightarrow> nat \<Rightarrow> chip8" where
  "scroll_down s n =
    fold (\<lambda>y s3. fold (\<lambda>x s4. set_pixel (y * MAX_WIDTH + x) 0 s4) [0..<screen_width s] s3)
      [0..<n]
      (fold (\<lambda>y s1.
          fold (\<lambda>x s2. set_pixel (y * MAX_WIDTH + x) (display s2 ((y - n) * MAX_WIDTH + x)) s2)
            [0..<screen_width s] s1)
        (rev [n..<screen_height s]) s)"

section \<open>One cycle\<close>

subsection \<open>The fields of an opcode\<close>

definition op_x :: "u16 \<Rightarrow> nat" where
  "op_x opcode = unat (drop_bit 8 (opcode AND 0x0F00))"

definition op_y :: "u16 \<Rightarrow> nat" where
  "op_y opcode = unat (drop_bit 4 (opcode AND 0x00F0))"

definition op_kk :: "u16 \<Rightarrow> u8" where
  "op_kk opcode = ucast (opcode AND 0x00FF)"

definition op_nnn :: "u16 \<Rightarrow> u16" where
  "op_nnn opcode = opcode AND 0x0FFF"

definition op_n :: "u16 \<Rightarrow> nat" where
  "op_n opcode = unat (opcode AND 0x000F)"

subsection \<open>The SCHIP opcodes, tested before the switch\<close>

text \<open>
  The chain of \<open>if\<close>s at the head of \<open>emulateCycle\<close>, in its order: which of the six
  effects the opcode selects, if any.
\<close>

datatype ext_op =
  ScrollRight4 | ScrollLeft4 | Terminate | ExitExtended | EnterExtended | ScrollDown nat

definition ext_dispatch :: "u16 \<Rightarrow> ext_op option" where
  "ext_dispatch opcode =
    (if opcode AND 0xF0FF = 0x00FB then Some ScrollRight4
     else if opcode AND 0xF0FF = 0x00FC then Some ScrollLeft4
     else if opcode AND 0xF0FF = 0x00FD then Some Terminate
     else if opcode AND 0xF0FF = 0x00FE then Some ExitExtended
     else if opcode AND 0xF0FF = 0x00FF then Some EnterExtended
     else if opcode AND 0xF000 = 0x0000 \<and> opcode AND 0x00F0 = 0x00C0
       then Some (ScrollDown (unat (opcode AND 0x000F)))
     else None)"

text \<open>The bodies of those branches. Each returns from the cycle at once.\<close>

fun ext_effect :: "ext_op \<Rightarrow> chip8 \<Rightarrow> stop + chip8" where
  "ext_effect ScrollRight4 s = Inr (scroll_horizontal s 1)"
| "ext_effect ScrollLeft4 s = Inr (scroll_horizontal s (- 1))"
| "ext_effect Terminate s = Inl (ExitProcess 0)"
| "ext_effect ExitExtended s =
     Inr (s\<lparr> extended_mode := 0, screen_width := NORMAL_WIDTH, screen_height := NORMAL_HEIGHT,
            fg := (255, 255, 255), bg := (0, 0, 0),
            display := zero_cells (MAX_WIDTH * MAX_HEIGHT) (display s) \<rparr>)"
| "ext_effect EnterExtended s =
     Inr (s\<lparr> extended_mode := 1, screen_width := EXT_WIDTH, screen_height := EXT_HEIGHT,
            fg := (0, 255, 255), bg := (0, 0, 128),
            display := zero_cells (MAX_WIDTH * MAX_HEIGHT) (display s) \<rparr>)"
| "ext_effect (ScrollDown n_rows) s = Inr (scroll_down s n_rows)"

subsection \<open>Registers\<close>

definition set_V :: "nat \<Rightarrow> u8 \<Rightarrow> chip8 \<Rightarrow> chip8" where
  "set_V i v s = s\<lparr> V := (V s)(i := v) \<rparr>"

definition skip :: "chip8 \<Rightarrow> chip8" where
  "skip s = s\<lparr> pc := pc s + 2 \<rparr>"

subsection \<open>\<open>case 0x0000\<close>\<close>

definition op_0 :: "u16 \<Rightarrow> chip8 \<Rightarrow> stop + chip8" where
  "op_0 opcode s =
    (if opcode = 0x00E0 then Inr (s\<lparr> display := zero_cells (MAX_WIDTH * MAX_HEIGHT) (display s) \<rparr>)
     else if opcode = 0x00EE then
       (let s1 = s\<lparr> sp := sp s - 1 \<rparr> in
        if unat (sp s1) < STACK_SIZE then Inr (s1\<lparr> pc := stack s1 (unat (sp s1)) \<rparr>)
        else Inl OutOfBounds)
     else Inr s)"

subsection \<open>\<open>case 0x2000\<close>\<close>

definition op_2 :: "u16 \<Rightarrow> chip8 \<Rightarrow> stop + chip8" where
  "op_2 opcode s =
    (if unat (sp s) < STACK_SIZE then
       (let s1 = s\<lparr> stack := (stack s)(unat (sp s) := pc s) \<rparr>;
            s2 = s1\<lparr> sp := sp s1 + 1 \<rparr>
        in Inr (s2\<lparr> pc := op_nnn opcode \<rparr>))
     else Inl OutOfBounds)"

subsection \<open>\<open>case 0x8000\<close>: the statements run in order on the register file\<close>

definition op_8 :: "u16 \<Rightarrow> chip8 \<Rightarrow> chip8" where
  "op_8 opcode s =
    (let x = op_x opcode; y = op_y opcode; sub = opcode AND 0x000F in
     if sub = 0x0 then set_V x (V s y) s
     else if sub = 0x1 then set_V x (V s x OR V s y) s
     else if sub = 0x2 then set_V x (V s x AND V s y) s
     else if sub = 0x3 then set_V x (V s x XOR V s y) s
     else if sub = 0x4 then
       (let sum = (ucast (V s x) + ucast (V s y) :: u16);
            s1 = set_V 0xF (if sum > 255 then 1 else 0) s
        in set_V x (ucast (sum AND 0xFF)) s1)
     else if sub = 0x5 then
       (let s1 = set_V 0xF (if V s x > V s y then 1 else 0) s
        in set_V x (V s1 x - V s1 y) s1)
     else if sub = 0x6 then
       (let s1 = set_V 0xF (V s x AND 0x1) s
        in set_V x (drop_bit 1 (V s1 x)) s1)
     else if sub = 0x7 then
       (let s1 = set_V 0xF (if V s y > V s x then 1 else 0) s
        in set_V x (V s1 y - V s1 x) s1)
     else if sub = 0xE then
       (let s1 = set_V 0xF (drop_bit 7 (V s x AND 0x80)) s
        in set_V x (push_bit 1 (V s1 x)) s1)
     else s)"

subsection \<open>\<open>case 0xD000\<close>: the sprite draw\<close>

text \<open>
  The body of \<open>if (pixelBit)\<close>, the same in both loops. \<open>V[x]\<close> and \<open>V[y]\<close> are
  read here, for every pixel, from the registers as they are at that moment.
\<close>

definition plot :: "nat \<Rightarrow> nat \<Rightarrow> nat \<Rightarrow> nat \<Rightarrow> chip8 \<Rightarrow> chip8" where
  "plot x y row col s =
    (let posX = (unat (V s x) + col) mod screen_width s;
         posY = (unat (V s y) + row) mod screen_height s;
         idx = posY * MAX_WIDTH + posX;
         s1 = (if display s idx = 1 then set_V 0xF 1 s else s)
     in set_pixel idx (display s1 idx XOR 1) s1)"

text \<open>The inner loop over \<open>col\<close>, given the test \<open>pixelBit\<close> of the row.\<close>

definition draw_row :: "nat \<Rightarrow> nat \<Rightarrow> nat \<Rightarrow> nat \<Rightarrow> (nat \<Rightarrow> bool) \<Rightarrow> chip8 \<Rightarrow> chip8" where
  "draw_row x y row width pixelBit s =
    fold (\<lambda>col s1. if pixelBit col then plot x y row col s1 else s1) [0..<width] s"

definition bit8 :: "u8 \<Rightarrow> nat \<Rightarrow> bool" where
  "bit8 spriteByte col = (spriteByte AND drop_bit col 0x80 \<noteq> 0)"

definition bit16 :: "u8 \<Rightarrow> u8 \<Rightarrow> nat \<Rightarrow> bool" where
  "bit16 byte1 byte2 col = (if col < 8 then bit8 byte1 col else bit8 byte2 (col - 8))"

definition row8 :: "nat \<Rightarrow> nat \<Rightarrow> nat \<Rightarrow> nat \<Rightarrow> stop + chip8 \<Rightarrow> stop + chip8" where
  "row8 x y spriteWidth row r =
    (case r of
       Inl e \<Rightarrow> Inl e
     | Inr s \<Rightarrow>
         if unat (I s) + row < MEMORY_SIZE
         then Inr (draw_row x y row spriteWidth (bit8 (memory s (unat (I s) + row))) s)
         else Inl OutOfBounds)"

definition row16 :: "nat \<Rightarrow> nat \<Rightarrow> nat \<Rightarrow> stop + chip8 \<Rightarrow> stop + chip8" where
  "row16 x y row r =
    (case r of
       Inl e \<Rightarrow> Inl e
     | Inr s \<Rightarrow>
         if unat (I s) + row * 2 + 1 < MEMORY_SIZE
         then Inr (draw_row x y row 16
                     (bit16 (memory s (unat (I s) + row * 2)) (memory s (unat (I s) + row * 2 + 1))) s)
         else Inl OutOfBounds)"

definition op_D :: "u16 \<Rightarrow> chip8 \<Rightarrow> stop + chip8" where
  "op_D opcode s =
    (let x = op_x opcode; y = op_y opcode; n = op_n opcode;
         (spriteWidth, spriteHeight) =
            (if extended_mode s \<noteq> 0 \<and> n = 0 then (16, 16) else (8, n));
         s0 = set_V 0xF 0 s
     in if spriteWidth = 16 then fold (row16 x y) [0..<16] (Inr s0)
        else fold (row8 x y spriteWidth) [0..<spriteHeight] (Inr s0))"

subsection \<open>\<open>case 0xE000\<close>\<close>

definition op_E :: "u16 \<Rightarrow> chip8 \<Rightarrow> stop + chip8" where
  "op_E opcode s =
    (let x = op_x opcode; sub = opcode AND 0x00FF in
     if sub = 0x9E then
       (if unat (V s x) < 16 then Inr (if keys s (unat (V s x)) \<noteq> 0 then skip s else s)
        else Inl OutOfBounds)
     else if sub = 0xA1 then
       (if unat (V s x) < 16 then Inr (if keys s (unat (V s x)) = 0 then skip s else s)
        else Inl OutOfBounds)
     else Inr s)"

subsection \<open>\<open>case 0xF000\<close>\<close>

text \<open>The key table of the wait of Fx0A.\<close>

fun key_value :: "keycode \<Rightarrow> u8 option" where
  "key_value SDLK_1 = Some 0x1"
| "key_value SDLK_2 = Some 0x2"
| "key_value SDLK_3 = Some 0x3"
| "key_value SDLK_4 = Some 0xC"
| "key_value SDLK_q = Some 0x4"
| "key_value SDLK_w = Some 0x5"
| "key_value SDLK_e = Some 0x6"
| "key_value SDLK_r = Some 0xD"
| "key_value SDLK_a = Some 0x7"
| "key_value SDLK_s = Some 0x8"
| "key_value SDLK_d = Some 0x9"
| "key_value SDLK_f = Some 0xE"
| "key_value SDLK_z = Some 0xA"
| "key_value SDLK_x = Some 0x0"
| "key_value SDLK_c = Some 0xB"
| "key_value SDLK_v = Some 0xF"
| "key_value SDLK_other = None"

text \<open>
  The inner loop \<open>while (SDL_PollEvent(&event))\<close> over the events one poll run
  delivers; the flag is \<open>key_pressed\<close>. The loop drains the run also after a key
  was seen, so a later key overwrites \<open>V[x]\<close> and \<open>SDL_QUIT\<close> still exits.
\<close>

fun poll_events :: "nat \<Rightarrow> sdl_event list \<Rightarrow> chip8 \<times> bool \<Rightarrow> stop + chip8 \<times> bool" where
  "poll_events x [] (s, key_pressed) = Inr (s, key_pressed)"
| "poll_events x (SDL_KEYDOWN k # evs) (s, key_pressed) =
     (case key_value k of
        Some v \<Rightarrow> poll_events x evs (set_V x v s, True)
      | None \<Rightarrow> poll_events x evs (s, key_pressed))"
| "poll_events x (SDL_QUIT # evs) (s, key_pressed) = Inl (ExitProcess 0)"
| "poll_events x (ev # evs) (s, key_pressed) = poll_events x evs (s, key_pressed)"

text \<open>
  The outer loop \<open>while (!key_pressed)\<close>. The argument lists the poll runs that
  deliver events, in order; after them every poll is empty, and the loop spins.
\<close>

fun wait_key :: "nat \<Rightarrow> sdl_event list list \<Rightarrow> chip8 \<Rightarrow> stop + chip8" where
  "wait_key x [] s = Inl WaitsForever"
| "wait_key x (evs # rest) s =
     (case poll_events x evs (s, False) of
        Inl e \<Rightarrow> Inl e
      | Inr (s1, key_pressed) \<Rightarrow> if key_pressed then Inr s1 else wait_key x rest s1)"

definition store_reg :: "nat \<Rightarrow> stop + chip8 \<Rightarrow> stop + chip8" where
  "store_reg i r =
    (case r of
       Inl e \<Rightarrow> Inl e
     | Inr s \<Rightarrow>
         if unat (I s) + i < MEMORY_SIZE
         then Inr (s\<lparr> memory := (memory s)(unat (I s) + i := V s i) \<rparr>)
         else Inl OutOfBounds)"

definition load_reg :: "nat \<Rightarrow> stop + chip8 \<Rightarrow> stop + chip8" where
  "load_reg i r =
    (case r of
       Inl e \<Rightarrow> Inl e
     | Inr s \<Rightarrow>
         if unat (I s) + i < MEMORY_SIZE
         then Inr (set_V i (memory s (unat (I s) + i)) s)
         else Inl OutOfBounds)"

definition op_F :: "sdl_event list list \<Rightarrow> u16 \<Rightarrow> chip8 \<Rightarrow> stop + chip8" where
  "op_F polled opcode s =
    (let x = op_x opcode; sub = opcode AND 0x00FF in
     if sub = 0x07 then Inr (set_V x (delay_timer s) s)
     else if sub = 0x0A then wait_key x polled s
     else if sub = 0x15 then Inr (s\<lparr> delay_timer := V s x \<rparr>)
     else if sub = 0x18 then Inr (s\<lparr> sound_timer := V s x \<rparr>)
     else if sub = 0x1E then Inr (s\<lparr> I := I s + ucast (V s x) \<rparr>)
     else if sub = 0x29 then Inr (s\<lparr> I := 0x50 + ucast (V s x) * 5 \<rparr>)
     else if sub = 0x33 then
       (let value = V s x in
        if unat (I s) + 2 < MEMORY_SIZE
        then Inr (s\<lparr> memory := (memory s)
                      (unat (I s) := value div 100,
                       unat (I s) + 1 := (value div 10) mod 10,
                       unat (I s) + 2 := value mod 10) \<rparr>)
        else Inl OutOfBounds)
     else if sub = 0x55 then fold store_reg [0..<x + 1] (Inr s)
     else if sub = 0x65 then fold load_reg [0..<x + 1] (Inr s)
     else Inr s)"

subsection \<open>The switch, the timers and the cycle\<close>

text \<open>\<open>rnd\<close> is the value \<open>rand()\<close> returns in Cxkk.\<close>

definition execute :: "nat \<Rightarrow> sdl_event list list \<Rightarrow> u16 \<Rightarrow> chip8 \<Rightarrow> stop + chip8" where
  "execute rnd polled opcode s =
    (let x = op_x opcode; y = op_y opcode; kk = op_kk opcode; nnn = op_nnn opcode;
         top = opcode AND 0xF000 in
     if top = 0x0000 then op_0 opcode s
     else if top = 0x1000 then Inr (s\<lparr> pc := nnn \<rparr>)
     else if top = 0x2000 then op_2 opcode s
     else if top = 0x3000 then Inr (if V s x = kk then skip s else s)
     else if top = 0x4000 then Inr (if V s x \<noteq> kk then skip s else s)
     else if top = 0x5000 then Inr (if V s x = V s y then skip s else s)
     else if top = 0x6000 then Inr (set_V x kk s)
     else if top = 0x7000 then Inr (set_V x (V s x + kk) s)
     else if top = 0x8000 then Inr (op_8 opcode s)
     else if top = 0x9000 then Inr (if V s x \<noteq> V s y then skip s else s)
     else if top = 0xA000 then Inr (s\<lparr> I := nnn \<rparr>)
     else if top = 0xB000 then Inr (s\<lparr> pc := nnn + ucast (V s 0) \<rparr>)
     else if top = 0xC000 then Inr (set_V x (of_nat (rnd mod 256) AND kk) s)
     else if top = 0xD000 then op_D opcode s
     else if top = 0xE000 then op_E opcode s
     else if top = 0xF000 then op_F polled opcode s
     else Inr s)"

text \<open>The four lines that end \<open>emulateCycle\<close> (and the same four in the loop of \<open>main\<close>).\<close>

definition tick :: "chip8 \<Rightarrow> chip8" where
  "tick s =
    (let s1 = (if delay_timer s > 0 then s\<lparr> delay_timer := delay_timer s - 1 \<rparr> else s)
     in if sound_timer s1 > 0 then s1\<lparr> sound_timer := sound_timer s1 - 1 \<rparr> else s1)"

definition emulateCycle :: "nat \<Rightarrow> sdl_event list list \<Rightarrow> chip8 \<Rightarrow> stop + chip8" where
  "emulateCycle rnd polled s =
    (case fetchOpcode s of
       Inl e \<Rightarrow> Inl e
     | Inr opcode \<Rightarrow>
         (let s1 = s\<lparr> pc := pc s + 2 \<rparr> in
          case ext_dispatch opcode of
            Some ext \<Rightarrow> ext_effect ext s1
          | None \<Rightarrow>
              (case execute rnd polled opcode s1 of
                 Inl e \<Rightarrow> Inl e
               | Inr s2 \<Rightarrow> Inr (tick s2))))"

section \<open>Observations\<close>

text \<open>The two timers of a state.\<close>

definition timers :: "chip8 \<Rightarrow> u8 \<times> u8" where
  "timers s = (delay_timer s, sound_timer s)"

text \<open>
  The three mode globals of a state, and the two combinations the program ever gives
  them: normal (0, 64, 32) and extended (1, 128, 64).
\<close>

definition mode :: "chip8 \<Rightarrow> nat \<times> nat \<times> nat" where
  "mode s = (extended_mode s, screen_width s, screen_height s)"

definition mode_ok :: "chip8 \<Rightarrow> bool" where
  "mode_ok s = (mode s = (0, NORMAL_WIDTH, NORMAL_HEIGHT) \<or> mode s = (1, EXT_WIDTH, EXT_HEIGHT))"

section \<open>The sprite draw as the specification words it\<close>

text \<open>
  The specification of Dxyn, for comparison with \<open>op_D\<close>. The sprite is 16 rows of
  2 bytes in extended mode with \<open>n = 0\<close> and \<open>n\<close> rows of one byte otherwise;
  \<open>spec_sprite\<close> lists the positions (row, column) of its set bits, row by row, the
  most significant bit of a byte being the leftmost column.
\<close>

definition spec_sprite :: "chip8 \<Rightarrow> nat \<Rightarrow> (nat \<times> nat) list" where
  "spec_sprite s n =
    (if extended_mode s \<noteq> 0 \<and> n = 0
     then concat (map (\<lambda>row. map (Pair row)
            (filter (bit16 (memory s (unat (I s) + row * 2)) (memory s (unat (I s) + row * 2 + 1)))
               [0..<16])) [0..<16])
     else concat (map (\<lambda>row. map (Pair row)
            (filter (bit8 (memory s (unat (I s) + row))) [0..<8])) [0..<n]))"

text \<open>
  The display cell of a sprite position: the coordinates are taken from \<open>V[x]\<close> and
  \<open>V[y]\<close> of the state in which the instruction starts, wrap around the logical
  width and height, and index the backing array with stride \<open>MAX_WIDTH\<close>.
\<close>

definition spec_cell :: "chip8 \<Rightarrow> nat \<Rightarrow> nat \<Rightarrow> nat \<times> nat \<Rightarrow> nat" where
  "spec_cell s x y p =
    ((unat (V s y) + fst p) mod screen_height s) * MAX_WIDTH
      + (unat (V s x) + snd p) mod screen_width s"

text \<open>
  One XOR on a pair of display and flag: the cell is flipped, and the flag becomes 1
  when the cell was 1; it is never cleared. The draw starts from flag 0.
\<close>

definition spec_xor :: "nat \<Rightarrow> (nat \<Rightarrow> u8) \<times> u8 \<Rightarrow> (nat \<Rightarrow> u8) \<times> u8" where
  "spec_xor idx r = ((fst r)(idx := fst r idx XOR 1), if fst r idx = 1 then 1 else snd r)"

definition spec_draw :: "chip8 \<Rightarrow> nat \<Rightarrow> nat \<Rightarrow> nat \<Rightarrow> (nat \<Rightarrow> u8) \<times> u8" where
  "spec_draw s x y n = fold spec_xor (map (spec_cell s x y) (spec_sprite s n)) (display s, 0)"

text \<open>Two devices of the proofs: a state with display and flag replaced, and the flip of one cell.\<close>

definition put :: "chip8 \<Rightarrow> (nat \<Rightarrow> u8) \<times> u8 \<Rightarrow> chip8" where
  "put s r = s\<lparr> V := (V s)(0xF := snd r), display := fst r \<rparr>"

definition toggle :: "nat \<Rightarrow> (nat \<Rightarrow> u8) \<Rightarrow> (nat \<Rightarrow> u8)" where
  "toggle idx d = d(idx := d idx XOR 1)"

section \<open>Concrete machine states\<close>

text \<open>
  The state with which \<open>main\<close> enters its loop when the file is an ordinary one that
  holds \<open>bytes\<close> and fits (\<open>main_startup_boot\<close> below).
\<close>

definition boot :: "u8 list \<Rightarrow> chip8" where
  "boot bytes = store_rom bytes (initializeChip8 static_state)"



text \<open>\<open>5127\<close> and \<open>912B\<close> at 0x200 with \<open>V0 = 3\<close>, \<open>V1 = 7\<close>, \<open>V2 = 7\<close>.\<close>

definition demo_skip_regs :: chip8 where
  "demo_skip_regs = (boot [0x51, 0x27])\<lparr> V := (\<lambda>_. 0)(0 := 3, 1 := 7, 2 := 7) \<rparr>"

definition demo_skip_ne_regs :: chip8 where
  "demo_skip_ne_regs = (boot [0x91, 0x2B])\<lparr> V := (\<lambda>_. 0)(0 := 3, 1 := 7, 2 := 7) \<rparr>"

text \<open>\<open>F01E\<close> at 0x200 with \<open>I = 0xFFFF\<close> and \<open>V0 = 1\<close>.\<close>

definition demo_fx1e :: chip8 where
  "demo_fx1e = (boot [0xF0, 0x1E])\<lparr> I := 0xFFFF, V := (\<lambda>_. 0)(0 := 1) \<rparr>"

text \<open>\<open>8015\<close> and \<open>8017\<close> at 0x200 with \<open>V0 = V1 = 5\<close>.\<close>

definition demo_sub :: chip8 where
  "demo_sub = (boot [0x80, 0x15])\<lparr> V := (\<lambda>_. 0)(0 := 5, 1 := 5) \<rparr>"

definition demo_subn :: chip8 where
  "demo_subn = (boot [0x80, 0x17])\<lparr> V := (\<lambda>_. 0)(0 := 5, 1 := 5) \<rparr>"

text \<open>\<open>8F06\<close> at 0x200 with \<open>VF = 6\<close>; \<open>8126\<close> at 0x200 with \<open>V1 = 7\<close>, \<open>V2 = 9\<close>.\<close>

definition demo_shr_flag :: chip8 where
  "demo_shr_flag = (boot [0x8F, 0x06])\<lparr> V := (\<lambda>_. 0)(0xF := 6) \<rparr>"

definition demo_shr :: chip8 where
  "demo_shr = (boot [0x81, 0x26])\<lparr> V := (\<lambda>_. 0)(1 := 7, 2 := 9) \<rparr>"

text \<open>\<open>812E\<close> at 0x200 with \<open>V1 = 0x85\<close>, \<open>V2 = 9\<close>.\<close>

definition demo_shl :: chip8 where
  "demo_shl = (boot [0x81, 0x2E])\<lparr> V := (\<lambda>_. 0)(1 := 0x85, 2 := 9) \<rparr>"



text \<open>\<open>600A\<close> at 0x200 with the delay timer at 5 and the sound timer at 0, and the state after its cycle.\<close>

definition demo_timer :: chip8 where
  "demo_timer = (boot [0x60, 0x0A])\<lparr> delay_timer := 5, sound_timer := 0 \<rparr>"

definition demo_timer_next :: chip8 where
  "demo_timer_next = demo_timer\<lparr> pc := 0x202, V := (\<lambda>_. 0)(0 := 0x0A), delay_timer := 4 \<rparr>"

text \<open>
  \<open>DF01\<close> at 0x200, the sprite byte \<open>C0\<close> at 0x202 with \<open>I\<close> pointing at it, all
  registers zero, and the display cell (0, 0) lit.
\<close>

definition demo_draw :: chip8 where
  "demo_draw = (boot [0xDF, 0x01, 0xC0])\<lparr> I := 0x202, display := (\<lambda>_. 0)(0 := 1) \<rparr>"

text \<open>
  \<open>DF01\<close> at 0x200 and again at 0x202, the sprite byte \<open>C0\<close> at 0x204 with \<open>I\<close>
  pointing at it, all registers zero, a dark display; and the state after the first draw.
\<close>

definition demo_twice :: chip8 where
  "demo_twice = (boot [0xDF, 0x01, 0xDF, 0x01, 0xC0])\<lparr> I := 0x204 \<rparr>"

definition demo_twice_drawn :: chip8 where
  "demo_twice_drawn = demo_twice\<lparr> pc := 0x202, display := (display demo_twice)(0 := 1, 1 := 1) \<rparr>"

text \<open>
  \<open>D011\<close> at 0x200 and again at 0x202, the sprite byte \<open>C0\<close> at 0x204 with \<open>I\<close>
  pointing at it, \<open>V0 = 63\<close> and \<open>V1 = 31\<close> (the sprite wraps from the last column to
  the first), a dark display; and the state after the first draw.
\<close>

definition demo_plain :: chip8 where
  "demo_plain = (boot [0xD0, 0x11, 0xD0, 0x11, 0xC0])\<lparr> I := 0x204, V := (\<lambda>_. 0)(0 := 63, 1 := 31) \<rparr>"

definition demo_plain_drawn :: chip8 where
  "demo_plain_drawn = tick (demo_plain\<lparr> pc := 0x202, V := (V demo_plain)(0xF := 0),
            display := (\<lambda>_. 0)(31 * 128 + 63 := 1, 31 * 128 := 1) \<rparr>)"

section \<open>Auxiliary facts\<close>

lemma and_narrow:
  fixes w :: "'a::len word"
  assumes "w AND a = c" and "a AND b = b"
  shows "w AND b = c AND b"
proof -
  have "c AND b = w AND (a AND b)" unfolding assms(1) [symmetric] by (simp add: and.assoc)
  then show ?thesis unfolding assms(2) by simp
qed

lemma ext_dispatch_top: "ext_dispatch opcode = Some e \<Longrightarrow> opcode AND 0xF000 = 0"
  by (auto simp: ext_dispatch_def split: if_splits dest: and_narrow [where b = "0xF000"])

lemma ext_dispatch_None: "opcode AND 0xF000 \<noteq> 0 \<Longrightarrow> ext_dispatch opcode = None"
  using ext_dispatch_top by (cases "ext_dispatch opcode") auto

lemma boot_simps:
  "pc (boot bytes) = 0x200"
  "V (boot bytes) = (\<lambda>_. 0)"
  by (simp_all add: boot_def store_rom_def initializeChip8_def static_state_def zero_cells_def
      fun_eq_iff Let_def split: if_splits)

lemma fetch_boot2: "fetchOpcode (boot [a, b]) = Inr (push_bit 8 (ucast a) OR ucast b)"
  by (simp add: fetchOpcode_def boot_def store_rom_def initializeChip8_def static_state_def copy_in_def)

lemma fetchOpcode_frame [simp]:
  "fetchOpcode (s\<lparr> I := i \<rparr>) = fetchOpcode s"
  "fetchOpcode (s\<lparr> V := v \<rparr>) = fetchOpcode s"
  "fetchOpcode (s\<lparr> display := d \<rparr>) = fetchOpcode s"
  "fetchOpcode (s\<lparr> sp := p \<rparr>) = fetchOpcode s"
  "fetchOpcode (s\<lparr> stack := st \<rparr>) = fetchOpcode s"
  "fetchOpcode (s\<lparr> delay_timer := dt \<rparr>) = fetchOpcode s"
  "fetchOpcode (s\<lparr> sound_timer := snd_t \<rparr>) = fetchOpcode s"
  by (simp_all add: fetchOpcode_def)

lemma unat_ucast_u8: "unat (ucast (v :: u8) :: u16) = unat v"
proof -
  have "unat v < 2 ^ 8" using unsigned_less [of v] by simp
  then have "unat v < 2 ^ 16" by simp
  then show ?thesis by (simp add: unsigned_ucast_eq take_bit_nat_eq_self)
qed

lemma unat_add_ucast:
  "unat ((i :: u16) + ucast (v :: u8)) = (unat i + unat v) mod 65536"
  by (simp add: unat_word_ariths unat_ucast_u8)

lemma tick_frame [simp]:
  "pc (tick s) = pc s" "sp (tick s) = sp s" "stack (tick s) = stack s" "memory (tick s) = memory s"
  "V (tick s) = V s" "I (tick s) = I s" "display (tick s) = display s" "keys (tick s) = keys s"
  "screen_width (tick s) = screen_width s" "screen_height (tick s) = screen_height s"
  "extended_mode (tick s) = extended_mode s"
  by (simp_all add: tick_def Let_def)

lemma fetchOpcode_tick [simp]: "fetchOpcode (tick s) = fetchOpcode s"
  by (simp add: fetchOpcode_def)

lemma top_bit_u8: "drop_bit 7 (v :: u8) AND 1 = drop_bit 7 v"
proof (rule bit_word_eqI)
  fix n assume "n < LENGTH(8)"
  show "bit (drop_bit 7 v AND 1) n = bit (drop_bit 7 v) n"
  proof (cases "n = 0")
    case True
    then show ?thesis by (simp add: bit_simps)
  next
    case False
    then have "\<not> bit v (7 + n)" using bit_imp_le_length [of v "7 + n"] by auto
    with False show ?thesis by (simp add: bit_simps)
  qed
qed

section \<open>The register comparisons 5xy? and 9xy?\<close>

text \<open>The register fields of an opcode are its second and third nibble.\<close>

lemma nibble_of_masked:
  fixes w :: u16
  shows "unat (drop_bit 8 (w AND 0x0F00)) = unat w div 256 mod 16"
    and "unat (drop_bit 4 (w AND 0x00F0)) = unat w div 16 mod 16"
proof -
  have m: "drop_bit 8 (0x0F00 :: u16) = mask 4" "drop_bit 4 (0x00F0 :: u16) = mask 4"
    by (simp_all add: mask_eq_exp_minus_1)
  have x: "drop_bit 8 (w AND 0x0F00) = take_bit 4 (drop_bit 8 w)"
    unfolding drop_bit_and m by (simp only: take_bit_eq_mask)
  show "unat (drop_bit 8 (w AND 0x0F00)) = unat w div 256 mod 16"
    unfolding x unsigned_take_bit_eq unat_drop_bit_eq
    by (simp add: drop_bit_eq_div take_bit_eq_mod)
  have y: "drop_bit 4 (w AND 0x00F0) = take_bit 4 (drop_bit 4 w)"
    unfolding drop_bit_and m by (simp only: take_bit_eq_mask)
  show "unat (drop_bit 4 (w AND 0x00F0)) = unat w div 16 mod 16"
    unfolding y unsigned_take_bit_eq unat_drop_bit_eq
    by (simp add: drop_bit_eq_div take_bit_eq_mod)
qed

lemma op_x_nibble: "op_x opcode = unat opcode div 256 mod 16"
  unfolding op_x_def by (rule nibble_of_masked)

lemma op_y_nibble: "op_y opcode = unat opcode div 16 mod 16"
  unfolding op_y_def by (rule nibble_of_masked)

text \<open>
  Claim C9. Every opcode whose top nibble is 5 skips the next instruction exactly when
  \<open>V[x] = V[y]\<close>, and every opcode whose top nibble is 9 exactly when
  \<open>V[x] \<noteq> V[y]\<close>, where x is the second nibble of the opcode (bits 8 to 11) and y
  the third (bits 4 to 7): the lowest four bits play no part. The cycle then runs the
  timers.
\<close>

theorem skip_ignores_low_nibble:
  assumes "fetchOpcode s = Inr opcode"
  shows "(opcode AND 0xF000 = 0x5000 \<longrightarrow>
           emulateCycle rnd polled s =
             Inr (tick (s\<lparr> pc := (if V s (unat opcode div 256 mod 16) = V s (unat opcode div 16 mod 16)
                                  then pc s + 2 + 2 else pc s + 2) \<rparr>)))
       \<and> (opcode AND 0xF000 = 0x9000 \<longrightarrow>
           emulateCycle rnd polled s =
             Inr (tick (s\<lparr> pc := (if V s (unat opcode div 256 mod 16) \<noteq> V s (unat opcode div 16 mod 16)
                                  then pc s + 2 + 2 else pc s + 2) \<rparr>)))"
  using assms
  unfolding op_x_nibble [symmetric] op_y_nibble [symmetric]
  by (auto simp: emulateCycle_def ext_dispatch_None execute_def skip_def Let_def)

theorem skip_ignores_low_nibble_witness:
  "fetchOpcode demo_skip_regs = Inr 0x5127 \<and> (0x5127 :: u16) AND 0xF000 = 0x5000
   \<and> V demo_skip_regs 0 = 3 \<and> V demo_skip_regs 1 = 7 \<and> V demo_skip_regs 2 = 7
   \<and> emulateCycle 0 [] demo_skip_regs = Inr (tick (demo_skip_regs\<lparr> pc := 0x204 \<rparr>))
   \<and> fetchOpcode demo_skip_ne_regs = Inr 0x912B \<and> (0x912B :: u16) AND 0xF000 = 0x9000
   \<and> V demo_skip_ne_regs 0 = 3 \<and> V demo_skip_ne_regs 1 = 7 \<and> V demo_skip_ne_regs 2 = 7
   \<and> emulateCycle 0 [] demo_skip_ne_regs = Inr (tick (demo_skip_ne_regs\<lparr> pc := 0x202 \<rparr>))"
proof -
  have f: "fetchOpcode demo_skip_regs = Inr 0x5127"
    by (simp add: demo_skip_regs_def fetch_boot2)
  have t: "(0x5127 :: u16) AND 0xF000 = 0x5000" by simp
  from skip_ignores_low_nibble [OF f, of 0 "[]"] t
  have a: "emulateCycle 0 [] demo_skip_regs =
      Inr (tick (demo_skip_regs\<lparr> pc :=
         (if V demo_skip_regs (unat (0x5127 :: u16) div 256 mod 16)
             = V demo_skip_regs (unat (0x5127 :: u16) div 16 mod 16)
          then pc demo_skip_regs + 2 + 2 else pc demo_skip_regs + 2) \<rparr>))"
    by blast
  have g: "fetchOpcode demo_skip_ne_regs = Inr 0x912B"
    by (simp add: demo_skip_ne_regs_def fetch_boot2)
  have u: "(0x912B :: u16) AND 0xF000 = 0x9000" by simp
  from skip_ignores_low_nibble [OF g, of 0 "[]"] u
  have b: "emulateCycle 0 [] demo_skip_ne_regs =
      Inr (tick (demo_skip_ne_regs\<lparr> pc :=
         (if V demo_skip_ne_regs (unat (0x912B :: u16) div 256 mod 16)
             \<noteq> V demo_skip_ne_regs (unat (0x912B :: u16) div 16 mod 16)
          then pc demo_skip_ne_regs + 2 + 2 else pc demo_skip_ne_regs + 2) \<rparr>))"
    by blast
  have v: "V demo_skip_regs = (\<lambda>_. 0)(0 := 3, 1 := 7, 2 := 7)" "pc demo_skip_regs = 0x200"
    "V demo_skip_ne_regs = (\<lambda>_. 0)(0 := 3, 1 := 7, 2 := 7)" "pc demo_skip_ne_regs = 0x200"
    by (simp_all add: demo_skip_regs_def demo_skip_ne_regs_def boot_simps)
  show ?thesis
    using a b f t g u by (simp add: v)
qed

section \<open>Fx1E\<close>

text \<open>
  Claim C3, as stated, at a concrete state: with \<open>I = 0xFFFF\<close> and \<open>V0 = 1\<close> the
  literal sum is 65536, and the cycle of \<open>F01E\<close> leaves \<open>I = 0\<close>.
\<close>

theorem fx1e_literal_sum_counterexample:
  "unat (I demo_fx1e) + unat (V demo_fx1e 0) = 65536
   \<and> map_sum id (\<lambda>t. unat (I t)) (emulateCycle 0 [] demo_fx1e) = Inr 0"
  by (simp add: demo_fx1e_def emulateCycle_def fetch_boot2 ext_dispatch_def execute_def op_F_def
      op_x_def tick_def boot_simps Let_def)

text \<open>
  Claim C3, amended. Fx1E adds \<open>V[x]\<close> to the 16-bit register \<open>I\<close>: the new value
  is the sum modulo 65536. No mask narrower than the register (such as 12 bits) is applied.
\<close>

theorem fx1e_wraps:
  assumes "fetchOpcode s = Inr opcode" and "opcode AND 0xF0FF = 0xF01E"
  shows "emulateCycle rnd polled s =
           Inr (tick (s\<lparr> pc := pc s + 2, I := I s + ucast (V s (op_x opcode)) \<rparr>))
       \<and> unat (I s + ucast (V s (op_x opcode))) = (unat (I s) + unat (V s (op_x opcode))) mod 65536"
proof -
  have top: "opcode AND 0xF000 = 0xF000"
    using and_narrow [OF assms(2), of "0xF000"] by simp
  have low: "opcode AND 0x00FF = 0x1E"
    using and_narrow [OF assms(2), of "0x00FF"] by simp
  show ?thesis
    using assms(1) top low
    by (simp add: emulateCycle_def ext_dispatch_None execute_def op_F_def Let_def unat_add_ucast)
qed

theorem fx1e_wraps_witness:
  "fetchOpcode demo_fx1e = Inr 0xF01E \<and> (0xF01E :: u16) AND 0xF0FF = 0xF01E
   \<and> emulateCycle 0 [] demo_fx1e = Inr (tick (demo_fx1e\<lparr> pc := 0x202, I := 0 \<rparr>))
   \<and> unat (I demo_fx1e + ucast (V demo_fx1e 0)) = 0"
proof -
  have f: "fetchOpcode demo_fx1e = Inr 0xF01E"
    by (simp add: demo_fx1e_def fetch_boot2)
  have t: "(0xF01E :: u16) AND 0xF0FF = 0xF01E" by simp
  have x: "op_x 0xF01E = 0" by (simp add: op_x_def)
  have z: "(65536 :: u16) = 0" by simp
  show ?thesis
    using fx1e_wraps [OF f t, of 0 "[]"] f t
    by (simp add: x) (simp add: demo_fx1e_def boot_simps z)
qed

section \<open>8xy5 and 8xy7\<close>

text \<open>
  What the code does for registers other than \<open>VF\<close>: the flag is 1 exactly when the
  minuend is strictly greater, and \<open>V[x]\<close> receives the difference modulo 256.
\<close>

lemma sub_flag_is_strict:
  assumes "fetchOpcode s = Inr opcode" and "op_x opcode \<noteq> 0xF" and "op_y opcode \<noteq> 0xF"
  shows "(opcode AND 0xF00F = 0x8005 \<longrightarrow>
           emulateCycle rnd polled s =
             Inr (tick (s\<lparr> pc := pc s + 2,
                    V := (V s)(0xF := (if V s (op_x opcode) > V s (op_y opcode) then 1 else 0),
                               op_x opcode := V s (op_x opcode) - V s (op_y opcode)) \<rparr>)))
       \<and> (opcode AND 0xF00F = 0x8007 \<longrightarrow>
           emulateCycle rnd polled s =
             Inr (tick (s\<lparr> pc := pc s + 2,
                    V := (V s)(0xF := (if V s (op_y opcode) > V s (op_x opcode) then 1 else 0),
                               op_x opcode := V s (op_y opcode) - V s (op_x opcode)) \<rparr>)))"
proof -
  have top: "opcode AND 0xF000 = 0x8000 \<and> opcode AND 0xF = 5" if "opcode AND 0xF00F = 0x8005"
    using and_narrow [OF that, of "0xF000"] and_narrow [OF that, of "0xF"] by simp
  have top7: "opcode AND 0xF000 = 0x8000 \<and> opcode AND 0xF = 7" if "opcode AND 0xF00F = 0x8007"
    using and_narrow [OF that, of "0xF000"] and_narrow [OF that, of "0xF"] by simp
  show ?thesis
    using assms top top7
    by (auto simp: emulateCycle_def ext_dispatch_None execute_def op_8_def set_V_def Let_def)
qed

text \<open>
  Claim C2 at equal operands. With \<open>V0 = V1 = 5\<close> neither subtraction borrows, so the
  claim gives \<open>VF = 1\<close>; the cycles of \<open>8015\<close> and of \<open>8017\<close> both end with
  \<open>V0 = 0\<close> and \<open>VF = 0\<close>.
\<close>

theorem sub_equal_operands_flag:
  "V demo_sub 0 = 5 \<and> V demo_sub 1 = 5
   \<and> map_sum id (\<lambda>t. (V t 0, V t 0xF)) (emulateCycle 0 [] demo_sub) = Inr (0, 0)
   \<and> V demo_subn 0 = 5 \<and> V demo_subn 1 = 5
   \<and> map_sum id (\<lambda>t. (V t 0, V t 0xF)) (emulateCycle 0 [] demo_subn) = Inr (0, 0)"
  by (simp add: demo_sub_def demo_subn_def emulateCycle_def fetch_boot2 ext_dispatch_def execute_def
      op_8_def set_V_def op_x_def op_y_def tick_def boot_simps Let_def)

section \<open>The shifts 8xy6 and 8xyE\<close>

text \<open>
  Claim C10, as stated, at \<open>x = F\<close>: with \<open>VF = 6\<close> the claim gives \<open>VF = 6 >> 1 = 3\<close>
  after \<open>8F06\<close>; the cycle leaves \<open>VF = 0\<close>.
\<close>

theorem shift_flag_register_counterexample:
  "drop_bit 1 (V demo_shr_flag 0xF) = 3
   \<and> map_sum id (\<lambda>t. V t 0xF) (emulateCycle 0 [] demo_shr_flag) = Inr 0"
  by (simp add: demo_shr_flag_def emulateCycle_def fetch_boot2 ext_dispatch_def execute_def
      op_8_def set_V_def op_x_def op_y_def tick_def boot_simps Let_def)

text \<open>
  Claim C10, amended. The shifts work on \<open>V[x]\<close> in place and never read \<open>V[y]\<close>.
  For \<open>x \<noteq> F\<close>, 8xy6 leaves \<open>V[x] >> 1\<close> in \<open>V[x]\<close> and bit 0 of the old \<open>V[x]\<close> in
  \<open>VF\<close>, and 8xyE leaves \<open>V[x] << 1\<close> (modulo 256) in \<open>V[x]\<close> and bit 7 of the old
  \<open>V[x]\<close> in \<open>VF\<close>. For \<open>x = F\<close> the flag is written first and the shift then works on
  the flag: 8Fy6 leaves \<open>VF = 0\<close>, and 8FyE leaves twice bit 7 of the old \<open>VF\<close>.
\<close>

theorem shift_in_place:
  assumes "fetchOpcode s = Inr opcode"
  shows "(opcode AND 0xF00F = 0x8006 \<longrightarrow>
           emulateCycle rnd polled s =
             Inr (tick (s\<lparr> pc := pc s + 2,
                    V := (if op_x opcode = 0xF then (V s)(0xF := 0)
                          else (V s)(0xF := V s (op_x opcode) AND 1,
                                     op_x opcode := drop_bit 1 (V s (op_x opcode)))) \<rparr>)))
       \<and> (opcode AND 0xF00F = 0x800E \<longrightarrow>
           emulateCycle rnd polled s =
             Inr (tick (s\<lparr> pc := pc s + 2,
                    V := (if op_x opcode = 0xF then (V s)(0xF := push_bit 1 (drop_bit 7 (V s 0xF)))
                          else (V s)(0xF := drop_bit 7 (V s (op_x opcode)),
                                     op_x opcode := push_bit 1 (V s (op_x opcode)))) \<rparr>)))"
proof -
  have top: "opcode AND 0xF000 = 0x8000 \<and> opcode AND 0xF = 6" if "opcode AND 0xF00F = 0x8006"
    using and_narrow [OF that, of "0xF000"] and_narrow [OF that, of "0xF"] by simp
  have topE: "opcode AND 0xF000 = 0x8000 \<and> opcode AND 0xF = 0xE" if "opcode AND 0xF00F = 0x800E"
    using and_narrow [OF that, of "0xF000"] and_narrow [OF that, of "0xF"] by simp
  show ?thesis
    using assms top topE
    by (auto simp: emulateCycle_def ext_dispatch_None execute_def op_8_def set_V_def Let_def top_bit_u8)
qed

theorem shift_in_place_witness:
  "fetchOpcode demo_shr = Inr 0x8126 \<and> (0x8126 :: u16) AND 0xF00F = 0x8006
   \<and> V demo_shr 1 = 7
   \<and> emulateCycle 0 [] demo_shr =
       Inr (tick (demo_shr\<lparr> pc := 0x202, V := (V demo_shr)(0xF := 1, 1 := 3) \<rparr>))
   \<and> fetchOpcode demo_shl = Inr 0x812E \<and> (0x812E :: u16) AND 0xF00F = 0x800E
   \<and> V demo_shl 1 = 0x85
   \<and> emulateCycle 0 [] demo_shl =
       Inr (tick (demo_shl\<lparr> pc := 0x202, V := (V demo_shl)(0xF := 1, 1 := 0x0A) \<rparr>))"
proof -
  have f: "fetchOpcode demo_shr = Inr 0x8126"
    by (simp add: demo_shr_def fetch_boot2)
  have t: "(0x8126 :: u16) AND 0xF00F = 0x8006" by simp
  have x: "op_x 0x8126 = 1" by (simp add: op_x_def)
  have v: "V demo_shr (Suc 0) = 7" "pc demo_shr = 0x200"
    by (simp_all add: demo_shr_def boot_simps)
  have a: "emulateCycle 0 [] demo_shr =
      Inr (tick (demo_shr\<lparr> pc := pc demo_shr + 2,
             V := (if op_x 0x8126 = 0xF then (V demo_shr)(0xF := 0)
                   else (V demo_shr)(0xF := V demo_shr (op_x 0x8126) AND 1,
                          op_x 0x8126 := drop_bit 1 (V demo_shr (op_x 0x8126)))) \<rparr>))"
    using shift_in_place [OF f, of 0 "[]"] t by blast
  have g: "fetchOpcode demo_shl = Inr 0x812E"
    by (simp add: demo_shl_def fetch_boot2)
  have u: "(0x812E :: u16) AND 0xF00F = 0x800E" by simp
  have y: "op_x 0x812E = 1" by (simp add: op_x_def)
  have w: "V demo_shl (Suc 0) = 0x85" "pc demo_shl = 0x200"
    by (simp_all add: demo_shl_def boot_simps)
  have z: "(266 :: u8) = 10" by simp
  have b: "emulateCycle 0 [] demo_shl =
      Inr (tick (demo_shl\<lparr> pc := pc demo_shl + 2,
             V := (if op_x 0x812E = 0xF then (V demo_shl)(0xF := push_bit 1 (drop_bit 7 (V demo_shl 0xF)))
                   else (V demo_shl)(0xF := drop_bit 7 (V demo_shl (op_x 0x812E)),
                          op_x 0x812E := push_bit 1 (V demo_shl (op_x 0x812E)))) \<rparr>))"
    using shift_in_place [OF g, of 0 "[]"] u by blast
  show ?thesis
    using a b f t g u by (simp add: x y v w z)
qed

section \<open>Call and return\<close>




section \<open>The timers\<close>

lemma fold_frame:
  assumes "\<And>x s. f (g x s) = f s"
  shows "f (fold g xs s) = f s"
  using assms by (induction xs arbitrary: s) simp_all

lemma fold_Inl:
  assumes "\<And>x e. g x (Inl e) = Inl e"
  shows "fold g xs (Inl e) = Inl e"
  using assms by (induction xs) simp_all

lemma fold_sum_frame:
  assumes step: "\<And>x s t. g x (Inr s) = Inr t \<Longrightarrow> f t = f s"
    and stop: "\<And>x e. g x (Inl e) = Inl e"
    and run: "fold g xs (Inr s) = Inr t"
  shows "f t = f s"
  using run
proof (induction xs arbitrary: s)
  case Nil
  then show ?case by simp
next
  case (Cons x xs)
  show ?case
  proof (cases "g x (Inr s)")
    case (Inl e)
    with Cons.prems show ?thesis by (simp add: fold_Inl [of g, OF stop])
  next
    case (Inr s1)
    with Cons.prems have "fold g xs (Inr s1) = Inr t" by simp
    then have "f t = f s1" by (rule Cons.IH)
    also have "f s1 = f s" using Inr by (rule step)
    finally show ?thesis .
  qed
qed

lemma timers_frame [simp]:
  "timers (s\<lparr> pc := p \<rparr>) = timers s"
  "timers (s\<lparr> I := i \<rparr>) = timers s"
  "timers (s\<lparr> V := v \<rparr>) = timers s"
  "timers (s\<lparr> sp := q \<rparr>) = timers s"
  "timers (s\<lparr> stack := st \<rparr>) = timers s"
  "timers (s\<lparr> memory := m \<rparr>) = timers s"
  "timers (s\<lparr> display := d \<rparr>) = timers s"
  "timers (s\<lparr> extended_mode := em \<rparr>) = timers s"
  "timers (s\<lparr> screen_width := sw \<rparr>) = timers s"
  "timers (s\<lparr> screen_height := sh \<rparr>) = timers s"
  "timers (s\<lparr> fg := c1 \<rparr>) = timers s"
  "timers (s\<lparr> bg := c2 \<rparr>) = timers s"
  by (simp_all add: timers_def)

lemma set_pixel_timers [simp]: "timers (set_pixel i v s) = timers s"
  by (simp add: set_pixel_def)

lemma set_V_timers [simp]: "timers (set_V i v s) = timers s"
  by (simp add: set_V_def)

lemma skip_timers [simp]: "timers (skip s) = timers s"
  by (simp add: skip_def)

lemma scroll_horizontal_timers [simp]: "timers (scroll_horizontal s d) = timers s"
  unfolding scroll_horizontal_def Let_def
  by (simp add: fold_frame [where f = timers])

lemma scroll_down_timers [simp]: "timers (scroll_down s n) = timers s"
  unfolding scroll_down_def
  by (simp add: fold_frame [where f = timers])

lemma ext_effect_timers: "ext_effect e s = Inr t \<Longrightarrow> timers t = timers s"
  by (cases e) auto

lemma plot_timers [simp]: "timers (plot x y row col s) = timers s"
  by (simp add: plot_def Let_def)

lemma draw_row_timers [simp]: "timers (draw_row x y row w b s) = timers s"
  unfolding draw_row_def by (simp add: fold_frame [where f = timers])

lemma fold_row8_timers:
  assumes "fold (row8 x y w) xs (Inr s) = Inr t"
  shows "timers t = timers s"
proof (rule fold_sum_frame [where f = timers, OF _ _ assms])
  show "\<And>r s t. row8 x y w r (Inr s) = Inr t \<Longrightarrow> timers t = timers s"
    by (auto simp: row8_def split: if_splits)
  show "\<And>r e. row8 x y w r (Inl e) = Inl e"
    by (simp add: row8_def)
qed

lemma fold_row16_timers:
  assumes "fold (row16 x y) xs (Inr s) = Inr t"
  shows "timers t = timers s"
proof (rule fold_sum_frame [where f = timers, OF _ _ assms])
  show "\<And>r s t. row16 x y r (Inr s) = Inr t \<Longrightarrow> timers t = timers s"
    by (auto simp: row16_def split: if_splits)
  show "\<And>r e. row16 x y r (Inl e) = Inl e"
    by (simp add: row16_def)
qed

lemma op_D_timers:
  assumes "op_D opcode s = Inr t"
  shows "timers t = timers s"
proof -
  have "timers t = timers (set_V 0xF 0 s)"
    using assms unfolding op_D_def Let_def
    by (auto split: if_splits dest: fold_row8_timers fold_row16_timers)
  then show ?thesis by simp
qed

lemma poll_events_timers:
  "poll_events x evs (s, k) = Inr (t, k') \<Longrightarrow> timers t = timers s"
proof (induction evs arbitrary: s k)
  case Nil
  then show ?case by simp
next
  case (Cons ev evs)
  show ?case
  proof (cases ev)
    case (SDL_KEYDOWN key)
    with Cons.prems Cons.IH show ?thesis
      by (cases "key_value key") fastforce+
  next
    case (SDL_KEYUP key)
    with Cons.prems Cons.IH show ?thesis by simp
  next
    case SDL_QUIT
    with Cons.prems show ?thesis by simp
  next
    case SDL_OTHER
    with Cons.prems Cons.IH show ?thesis by simp
  qed
qed

lemma wait_key_timers: "wait_key x polled s = Inr t \<Longrightarrow> timers t = timers s"
proof (induction polled arbitrary: s)
  case Nil
  then show ?case by simp
next
  case (Cons evs rest)
  show ?case
  proof (cases "poll_events x evs (s, False)")
    case (Inl e)
    with Cons.prems show ?thesis by simp
  next
    case (Inr r)
    obtain s1 k where r: "r = (s1, k)" by (cases r)
    have s1: "timers s1 = timers s" using Inr r poll_events_timers by blast
    show ?thesis
    proof (cases k)
      case True
      with Cons.prems Inr r s1 show ?thesis by simp
    next
      case False
      with Cons.prems Inr r have "wait_key x rest s1 = Inr t" by simp
      then have "timers t = timers s1" by (rule Cons.IH)
      with s1 show ?thesis by simp
    qed
  qed
qed

lemma fold_store_reg_timers:
  assumes "fold store_reg xs (Inr s) = Inr t"
  shows "timers t = timers s"
proof (rule fold_sum_frame [where f = timers, OF _ _ assms])
  show "\<And>i s t. store_reg i (Inr s) = Inr t \<Longrightarrow> timers t = timers s"
    by (auto simp: store_reg_def split: if_splits)
  show "\<And>i e. store_reg i (Inl e) = Inl e"
    by (simp add: store_reg_def)
qed

lemma fold_load_reg_timers:
  assumes "fold load_reg xs (Inr s) = Inr t"
  shows "timers t = timers s"
proof (rule fold_sum_frame [where f = timers, OF _ _ assms])
  show "\<And>i s t. load_reg i (Inr s) = Inr t \<Longrightarrow> timers t = timers s"
    by (auto simp: load_reg_def split: if_splits)
  show "\<And>i e. load_reg i (Inl e) = Inl e"
    by (simp add: load_reg_def)
qed

lemma op_F_timers:
  assumes "op_F polled opcode s = Inr t"
  shows "(opcode AND 0xFF \<noteq> 0x15 \<longrightarrow> delay_timer t = delay_timer s)
       \<and> (opcode AND 0xFF \<noteq> 0x18 \<longrightarrow> sound_timer t = sound_timer s)"
proof (cases "opcode AND 0xFF = 0x15 \<or> opcode AND 0xFF = 0x18")
  case True
  then show ?thesis using assms by (auto simp: op_F_def Let_def)
next
  case False
  have "timers t = timers s"
    using assms False unfolding op_F_def Let_def
    by (auto simp del: upt_Suc split: if_splits
        dest: wait_key_timers fold_store_reg_timers fold_load_reg_timers)
  then show ?thesis by (simp add: timers_def)
qed

lemma pattern_join:
  fixes w :: u16
  assumes "w AND 0xF000 = 0xF000" and "w AND 0xFF = c" 
  shows "w AND 0xF0FF = 0xF000 OR c"
proof -
  have "w AND 0xF0FF = w AND (0xF000 OR 0xFF)" by simp
  also have "\<dots> = (w AND 0xF000) OR (w AND 0xFF)" by (rule word_ao_dist2)
  finally show ?thesis using assms by simp
qed

lemma execute_timers:
  assumes "execute rnd polled opcode s = Inr t"
  shows "(opcode AND 0xF0FF \<noteq> 0xF015 \<longrightarrow> delay_timer t = delay_timer s)
       \<and> (opcode AND 0xF0FF \<noteq> 0xF018 \<longrightarrow> sound_timer t = sound_timer s)"
proof (cases "opcode AND 0xF000 = 0xF000")
  case True
  then have e: "op_F polled opcode s = Inr t"
    using assms by (simp add: execute_def Let_def)
  have "opcode AND 0xFF \<noteq> 0x15" if "opcode AND 0xF0FF \<noteq> 0xF015"
    using that pattern_join [OF True, of "0x15"] by auto
  moreover have "opcode AND 0xFF \<noteq> 0x18" if "opcode AND 0xF0FF \<noteq> 0xF018"
    using that pattern_join [OF True, of "0x18"] by auto
  ultimately show ?thesis using op_F_timers [OF e] by blast
next
  case False
  have o0: "\<And>t. op_0 opcode s = Inr t \<Longrightarrow> timers t = timers s"
    by (auto simp: op_0_def Let_def split: if_splits)
  have o2: "\<And>t. op_2 opcode s = Inr t \<Longrightarrow> timers t = timers s"
    by (auto simp: op_2_def Let_def split: if_splits)
  have o8: "timers (op_8 opcode s) = timers s"
    by (simp add: op_8_def Let_def)
  have oE: "\<And>t. op_E opcode s = Inr t \<Longrightarrow> timers t = timers s"
    by (auto simp: op_E_def Let_def split: if_splits)
  have "timers t = timers s"
    using assms False o8
    unfolding execute_def Let_def
    by (auto split: if_splits dest: o0 o2 oE op_D_timers)
  then show ?thesis by (simp add: timers_def)
qed

lemma word_pred_le: "(d :: u8) - 1 \<le> d" if "0 < d"
proof -
  have "d \<noteq> 0" using that by auto
  then have "unat (d - 1) = unat d - 1" by (rule unat_minus_one)
  then show ?thesis by (simp add: word_le_nat_alt)
qed

lemma tick_le: "delay_timer (tick s) \<le> delay_timer s \<and> sound_timer (tick s) \<le> sound_timer s"
  by (auto simp: tick_def Let_def word_pred_le)

text \<open>
  Claim C6. The tick lowers each timer by one when it is not zero and leaves a zero
  timer at zero. A cycle that yields a next state never raises the delay timer unless
  the opcode is Fx15, and never raises the sound timer unless the opcode is Fx18.
\<close>

theorem timers_never_increase:
  "delay_timer (tick s) = (if delay_timer s = 0 then 0 else delay_timer s - 1)
   \<and> sound_timer (tick s) = (if sound_timer s = 0 then 0 else sound_timer s - 1)
   \<and> unat (delay_timer (tick s)) = unat (delay_timer s) - 1
   \<and> unat (sound_timer (tick s)) = unat (sound_timer s) - 1
   \<and> (fetchOpcode s = Inr opcode \<and> emulateCycle rnd polled s = Inr s' \<longrightarrow>
        (opcode AND 0xF0FF \<noteq> 0xF015 \<longrightarrow> delay_timer s' \<le> delay_timer s)
      \<and> (opcode AND 0xF0FF \<noteq> 0xF018 \<longrightarrow> sound_timer s' \<le> sound_timer s))"
proof -
  have t1: "delay_timer (tick s) = (if delay_timer s = 0 then 0 else delay_timer s - 1)"
    and t2: "sound_timer (tick s) = (if sound_timer s = 0 then 0 else sound_timer s - 1)"
    by (auto simp: tick_def Let_def word_greater_zero_iff)
  have t3: "unat (delay_timer (tick s)) = unat (delay_timer s) - 1"
    unfolding t1 by (simp add: unat_minus_one)
  have t4: "unat (sound_timer (tick s)) = unat (sound_timer s) - 1"
    unfolding t2 by (simp add: unat_minus_one)
  have step: "(opcode AND 0xF0FF \<noteq> 0xF015 \<longrightarrow> delay_timer s' \<le> delay_timer s)
      \<and> (opcode AND 0xF0FF \<noteq> 0xF018 \<longrightarrow> sound_timer s' \<le> sound_timer s)"
    if f: "fetchOpcode s = Inr opcode" and c: "emulateCycle rnd polled s = Inr s'"
  proof (cases "ext_dispatch opcode")
    case (Some e)
    with f c have "ext_effect e (s\<lparr> pc := pc s + 2 \<rparr>) = Inr s'"
      by (simp add: emulateCycle_def)
    then have "timers s' = timers s" by (auto dest: ext_effect_timers)
    then show ?thesis by (simp add: timers_def)
  next
    case None
    with f c obtain s2 where e: "execute rnd polled opcode (s\<lparr> pc := pc s + 2 \<rparr>) = Inr s2"
      and s': "s' = tick s2"
      by (auto simp: emulateCycle_def split: sum.splits)
    from execute_timers [OF e] tick_le [of s2] show ?thesis
      unfolding s' by auto
  qed
  from t1 t2 t3 t4 step show ?thesis by blast
qed

theorem timers_never_increase_witness:
  "fetchOpcode demo_timer = Inr 0x600A \<and> emulateCycle 0 [] demo_timer = Inr demo_timer_next
   \<and> (0x600A :: u16) AND 0xF0FF \<noteq> 0xF015 \<and> (0x600A :: u16) AND 0xF0FF \<noteq> 0xF018
   \<and> delay_timer demo_timer_next \<le> delay_timer demo_timer
   \<and> sound_timer demo_timer_next \<le> sound_timer demo_timer
   \<and> delay_timer demo_timer = 5 \<and> delay_timer (tick demo_timer) = 4
   \<and> sound_timer demo_timer = 0 \<and> sound_timer (tick demo_timer) = 0"
proof -
  have f: "fetchOpcode demo_timer = Inr 0x600A"
    by (simp add: demo_timer_def fetch_boot2)
  have c: "emulateCycle 0 [] demo_timer = Inr demo_timer_next"
    by (simp add: emulateCycle_def f ext_dispatch_def execute_def op_x_def op_kk_def set_V_def
        tick_def Let_def)
       (simp add: demo_timer_def demo_timer_next_def boot_simps)
  have d: "delay_timer demo_timer = 5" "sound_timer demo_timer = 0"
    by (simp_all add: demo_timer_def)
  show ?thesis
    using timers_never_increase [of demo_timer "0x600A" 0 "[]" demo_timer_next] f c d
    by simp
qed


section \<open>The display index stays inside the array\<close>

text \<open>
  The draw and the scrolls index \<open>display\<close> without a guard. The mode globals are
  normal or extended when \<open>main\<close> enters its loop and after every cycle
  (\<open>mode_ok_boot\<close>, \<open>mode_ok_step\<close>), and in such a state every index the draw
  computes lies below \<open>MAX_WIDTH * MAX_HEIGHT\<close> (\<open>display_index_in_range\<close>).
\<close>

lemma mode_frame [simp]:
  "mode (s\<lparr> pc := p \<rparr>) = mode s"
  "mode (s\<lparr> I := i \<rparr>) = mode s"
  "mode (s\<lparr> V := v \<rparr>) = mode s"
  "mode (s\<lparr> sp := q \<rparr>) = mode s"
  "mode (s\<lparr> stack := st \<rparr>) = mode s"
  "mode (s\<lparr> memory := m \<rparr>) = mode s"
  "mode (s\<lparr> display := d \<rparr>) = mode s"
  "mode (s\<lparr> delay_timer := dt \<rparr>) = mode s"
  "mode (s\<lparr> sound_timer := snt \<rparr>) = mode s"
  "mode (s\<lparr> fg := c1 \<rparr>) = mode s"
  "mode (s\<lparr> bg := c2 \<rparr>) = mode s"
  by (simp_all add: mode_def)

lemma set_pixel_mode [simp]: "mode (set_pixel i v s) = mode s"
  by (simp add: set_pixel_def)

lemma set_V_mode [simp]: "mode (set_V i v s) = mode s"
  by (simp add: set_V_def)

lemma skip_mode [simp]: "mode (skip s) = mode s"
  by (simp add: skip_def)

lemma scroll_horizontal_mode [simp]: "mode (scroll_horizontal s d) = mode s"
  unfolding scroll_horizontal_def Let_def
  by (simp add: fold_frame [where f = mode])

lemma scroll_down_mode [simp]: "mode (scroll_down s n) = mode s"
  unfolding scroll_down_def
  by (simp add: fold_frame [where f = mode])

lemma ext_effect_mode_ok: "mode_ok s \<Longrightarrow> ext_effect e s = Inr t \<Longrightarrow> mode_ok t"
  by (cases e) (auto simp: mode_ok_def, simp_all add: mode_def)

lemma plot_mode [simp]: "mode (plot x y row col s) = mode s"
  by (simp add: plot_def Let_def)

lemma draw_row_mode [simp]: "mode (draw_row x y row w b s) = mode s"
  unfolding draw_row_def by (simp add: fold_frame [where f = mode])

lemma fold_row8_mode:
  assumes "fold (row8 x y w) xs (Inr s) = Inr t"
  shows "mode t = mode s"
proof (rule fold_sum_frame [where f = mode, OF _ _ assms])
  show "\<And>r s t. row8 x y w r (Inr s) = Inr t \<Longrightarrow> mode t = mode s"
    by (auto simp: row8_def split: if_splits)
  show "\<And>r e. row8 x y w r (Inl e) = Inl e"
    by (simp add: row8_def)
qed

lemma fold_row16_mode:
  assumes "fold (row16 x y) xs (Inr s) = Inr t"
  shows "mode t = mode s"
proof (rule fold_sum_frame [where f = mode, OF _ _ assms])
  show "\<And>r s t. row16 x y r (Inr s) = Inr t \<Longrightarrow> mode t = mode s"
    by (auto simp: row16_def split: if_splits)
  show "\<And>r e. row16 x y r (Inl e) = Inl e"
    by (simp add: row16_def)
qed

lemma op_D_mode:
  assumes "op_D opcode s = Inr t"
  shows "mode t = mode s"
proof -
  have "mode t = mode (set_V 0xF 0 s)"
    using assms unfolding op_D_def Let_def
    by (auto split: if_splits dest: fold_row8_mode fold_row16_mode)
  then show ?thesis by simp
qed

lemma poll_events_mode:
  "poll_events x evs (s, k) = Inr (t, k') \<Longrightarrow> mode t = mode s"
proof (induction evs arbitrary: s k)
  case Nil
  then show ?case by simp
next
  case (Cons ev evs)
  show ?case
  proof (cases ev)
    case (SDL_KEYDOWN key)
    with Cons.prems Cons.IH show ?thesis
      by (cases "key_value key") fastforce+
  next
    case (SDL_KEYUP key)
    with Cons.prems Cons.IH show ?thesis by simp
  next
    case SDL_QUIT
    with Cons.prems show ?thesis by simp
  next
    case SDL_OTHER
    with Cons.prems Cons.IH show ?thesis by simp
  qed
qed

lemma wait_key_mode: "wait_key x polled s = Inr t \<Longrightarrow> mode t = mode s"
proof (induction polled arbitrary: s)
  case Nil
  then show ?case by simp
next
  case (Cons evs rest)
  show ?case
  proof (cases "poll_events x evs (s, False)")
    case (Inl e)
    with Cons.prems show ?thesis by simp
  next
    case (Inr r)
    obtain s1 k where r: "r = (s1, k)" by (cases r)
    have s1: "mode s1 = mode s" using Inr r poll_events_mode by blast
    show ?thesis
    proof (cases k)
      case True
      with Cons.prems Inr r s1 show ?thesis by simp
    next
      case False
      with Cons.prems Inr r have "wait_key x rest s1 = Inr t" by simp
      then have "mode t = mode s1" by (rule Cons.IH)
      with s1 show ?thesis by simp
    qed
  qed
qed

lemma fold_store_reg_mode:
  assumes "fold store_reg xs (Inr s) = Inr t"
  shows "mode t = mode s"
proof (rule fold_sum_frame [where f = mode, OF _ _ assms])
  show "\<And>i s t. store_reg i (Inr s) = Inr t \<Longrightarrow> mode t = mode s"
    by (auto simp: store_reg_def split: if_splits)
  show "\<And>i e. store_reg i (Inl e) = Inl e"
    by (simp add: store_reg_def)
qed

lemma fold_load_reg_mode:
  assumes "fold load_reg xs (Inr s) = Inr t"
  shows "mode t = mode s"
proof (rule fold_sum_frame [where f = mode, OF _ _ assms])
  show "\<And>i s t. load_reg i (Inr s) = Inr t \<Longrightarrow> mode t = mode s"
    by (auto simp: load_reg_def split: if_splits)
  show "\<And>i e. load_reg i (Inl e) = Inl e"
    by (simp add: load_reg_def)
qed

lemma op_F_mode:
  assumes "op_F polled opcode s = Inr t"
  shows "mode t = mode s"
  using assms unfolding op_F_def Let_def
  by (auto simp del: upt_Suc split: if_splits
      dest: wait_key_mode fold_store_reg_mode fold_load_reg_mode)

lemma execute_mode:
  assumes "execute rnd polled opcode s = Inr t"
  shows "mode t = mode s"
proof -
  have o0: "\<And>t. op_0 opcode s = Inr t \<Longrightarrow> mode t = mode s"
    by (auto simp: op_0_def Let_def split: if_splits)
  have o2: "\<And>t. op_2 opcode s = Inr t \<Longrightarrow> mode t = mode s"
    by (auto simp: op_2_def Let_def split: if_splits)
  have o8: "mode (op_8 opcode s) = mode s"
    by (simp add: op_8_def Let_def)
  have oE: "\<And>t. op_E opcode s = Inr t \<Longrightarrow> mode t = mode s"
    by (auto simp: op_E_def Let_def split: if_splits)
  show ?thesis
    using assms o8
    unfolding execute_def Let_def
    by (auto split: if_splits dest: o0 o2 oE op_D_mode op_F_mode)
qed

lemma tick_mode [simp]: "mode (tick s) = mode s"
  by (simp add: mode_def)

lemma mode_ok_boot: "mode_ok (boot bytes)"
  by (simp add: mode_ok_def mode_def boot_def store_rom_def initializeChip8_def static_state_def)

lemma mode_ok_step:
  assumes "mode_ok s" and "emulateCycle rnd polled s = Inr t"
  shows "mode_ok t"
proof (cases "fetchOpcode s")
  case (Inl e)
  with assms(2) show ?thesis by (simp add: emulateCycle_def)
next
  case (Inr opcode)
  have a: "mode_ok (s\<lparr> pc := pc s + 2 \<rparr>)"
    using assms(1) by (simp add: mode_ok_def)
  show ?thesis
  proof (cases "ext_dispatch opcode")
    case (Some e)
    with Inr assms(2) have "ext_effect e (s\<lparr> pc := pc s + 2 \<rparr>) = Inr t"
      by (simp add: emulateCycle_def)
    with a show ?thesis by (rule ext_effect_mode_ok)
  next
    case None
    with Inr assms(2) obtain s2 where "execute rnd polled opcode (s\<lparr> pc := pc s + 2 \<rparr>) = Inr s2"
      and "t = tick s2"
      by (auto simp: emulateCycle_def split: sum.splits)
    then have "mode t = mode s" using execute_mode by fastforce
    with assms(1) show ?thesis by (simp add: mode_ok_def)
  qed
qed

lemma display_index_in_range:
  assumes "mode_ok s"
  shows "(a mod screen_height s) * MAX_WIDTH + b mod screen_width s < MAX_WIDTH * MAX_HEIGHT"
proof -
  have h: "0 < screen_height s \<and> screen_height s \<le> MAX_HEIGHT
      \<and> 0 < screen_width s \<and> screen_width s \<le> MAX_WIDTH"
    using assms by (auto simp: mode_ok_def mode_def)
  then have "a mod screen_height s < MAX_HEIGHT" "b mod screen_width s < MAX_WIDTH"
    by (meson mod_less_divisor less_le_trans)+
  then show ?thesis by simp
qed

section \<open>The SCHIP opcodes\<close>

lemma ext_dispatch_second_nibble: "ext_dispatch (opcode AND 0xF0FF) = ext_dispatch opcode"
  by (simp add: ext_dispatch_def and.assoc)

text \<open>
  Claim C4, as stated, at the opcode \<open>01FB\<close>: it is not \<open>00FB\<close>, and the cycle
  scrolls the display right by 4.
\<close>

theorem ext_dispatch_matches_counterexample:
  "(0x01FB :: u16) \<noteq> 0x00FB \<and> ext_dispatch 0x01FB = Some ScrollRight4
   \<and> emulateCycle 0 [] (boot [0x01, 0xFB])
       = Inr (scroll_horizontal ((boot [0x01, 0xFB])\<lparr> pc := 0x202 \<rparr>) 1)"
  by (simp add: ext_dispatch_def emulateCycle_def fetch_boot2 boot_simps)

text \<open>
  Claim C4, amended. The six SCHIP effects are tested before the switch on the top
  nibble, on the opcode with bits 8 to 11 masked out: scroll-right-4, scroll-left-4,
  terminate, exit-extended and enter-extended are selected exactly when
  \<open>opcode & 0xF0FF\<close> is 00FB, 00FC, 00FD, 00FE, 00FF, and scroll-down-n exactly when
  \<open>opcode & 0xF0F0\<close> is 00C0, with n the low nibble. The second nibble of the opcode
  plays no part. Every other opcode goes to the switch, followed by the timers.
\<close>

theorem ext_dispatch_patterns:
  "(ext_dispatch opcode = Some ScrollRight4 \<longleftrightarrow> opcode AND 0xF0FF = 0x00FB)
   \<and> (ext_dispatch opcode = Some ScrollLeft4 \<longleftrightarrow> opcode AND 0xF0FF = 0x00FC)
   \<and> (ext_dispatch opcode = Some Terminate \<longleftrightarrow> opcode AND 0xF0FF = 0x00FD)
   \<and> (ext_dispatch opcode = Some ExitExtended \<longleftrightarrow> opcode AND 0xF0FF = 0x00FE)
   \<and> (ext_dispatch opcode = Some EnterExtended \<longleftrightarrow> opcode AND 0xF0FF = 0x00FF)
   \<and> (ext_dispatch opcode = Some (ScrollDown k) \<longleftrightarrow>
        opcode AND 0xF0F0 = 0x00C0 \<and> k = unat (opcode AND 0x000F))
   \<and> ext_dispatch (opcode AND 0xF0FF) = ext_dispatch opcode
   \<and> (fetchOpcode s = Inr opcode \<longrightarrow>
        emulateCycle rnd polled s =
          (case ext_dispatch opcode of
             Some ext \<Rightarrow> ext_effect ext (s\<lparr> pc := pc s + 2 \<rparr>)
           | None \<Rightarrow> map_sum id tick (execute rnd polled opcode (s\<lparr> pc := pc s + 2 \<rparr>))))"
proof -
  have c0: "opcode AND 0xF0F0 = 0x00C0 \<longleftrightarrow> opcode AND 0xF000 = 0 \<and> opcode AND 0x00F0 = 0x00C0"
  proof
    assume a: "opcode AND 0xF0F0 = 0x00C0"
    show "opcode AND 0xF000 = 0 \<and> opcode AND 0x00F0 = 0x00C0"
      using and_narrow [OF a, of "0xF000"] and_narrow [OF a, of "0x00F0"] by simp
  next
    assume a: "opcode AND 0xF000 = 0 \<and> opcode AND 0x00F0 = 0x00C0"
    have "opcode AND 0xF0F0 = opcode AND (0xF000 OR 0x00F0)" by simp
    also have "\<dots> = (opcode AND 0xF000) OR (opcode AND 0x00F0)" by (rule word_ao_dist2)
    finally show "opcode AND 0xF0F0 = 0x00C0" using a by simp
  qed
  have nC: "opcode AND 0x00F0 = 0xF0" if "opcode AND 0xF0FF = c" "c AND 0x00F0 = 0xF0" for c
    using and_narrow [OF that(1), of "0x00F0"] that(2) by simp
  have p: "(ext_dispatch opcode = Some ScrollRight4 \<longleftrightarrow> opcode AND 0xF0FF = 0x00FB)
   \<and> (ext_dispatch opcode = Some ScrollLeft4 \<longleftrightarrow> opcode AND 0xF0FF = 0x00FC)
   \<and> (ext_dispatch opcode = Some Terminate \<longleftrightarrow> opcode AND 0xF0FF = 0x00FD)
   \<and> (ext_dispatch opcode = Some ExitExtended \<longleftrightarrow> opcode AND 0xF0FF = 0x00FE)
   \<and> (ext_dispatch opcode = Some EnterExtended \<longleftrightarrow> opcode AND 0xF0FF = 0x00FF)"
    by (auto simp: ext_dispatch_def)
  have q: "ext_dispatch opcode = Some (ScrollDown k) \<longleftrightarrow>
        opcode AND 0xF0F0 = 0x00C0 \<and> k = unat (opcode AND 0x000F)"
    unfolding c0
    using nC [of "0x00FB"] nC [of "0x00FC"] nC [of "0x00FD"] nC [of "0x00FE"] nC [of "0x00FF"]
    by (auto simp: ext_dispatch_def)
  have r: "emulateCycle rnd polled s =
          (case ext_dispatch opcode of
             Some ext \<Rightarrow> ext_effect ext (s\<lparr> pc := pc s + 2 \<rparr>)
           | None \<Rightarrow> map_sum id tick (execute rnd polled opcode (s\<lparr> pc := pc s + 2 \<rparr>)))"
    if "fetchOpcode s = Inr opcode"
    using that by (auto simp: emulateCycle_def split: option.splits sum.splits)
  from p q r ext_dispatch_second_nibble show ?thesis by blast
qed

theorem ext_dispatch_patterns_witness:
  "fetchOpcode (boot [0x00, 0xFF]) = Inr 0x00FF
   \<and> ext_dispatch 0x00FF = Some EnterExtended
   \<and> emulateCycle 0 [] (boot [0x00, 0xFF]) = ext_effect EnterExtended ((boot [0x00, 0xFF])\<lparr> pc := 0x202 \<rparr>)"
proof -
  have f: "fetchOpcode (boot [0x00, 0xFF]) = Inr 0x00FF"
    by (simp add: fetch_boot2)
  have e: "ext_dispatch 0x00FF = Some EnterExtended"
    by (simp add: ext_dispatch_def)
  show ?thesis
    using ext_dispatch_patterns [of "0x00FF" 0 "boot [0x00, 0xFF]" 0 "[]"] f e
    by (simp add: boot_simps)
qed

section \<open>Loading the program\<close>

lemma main_startup_boot:
  assumes "length bytes \<le> MEMORY_SIZE - START_ADDRESS"
  shows "main_startup 2 (Some (plain_file bytes)) True True True = Inr (EntersLoop (boot bytes))"
  using assms
  by (simp add: main_startup_def loadROM_def plain_file_def size_t_of_def boot_def Let_def)






section \<open>The sprite draw when neither coordinate register is VF\<close>

text \<open>
  For \<open>x \<noteq> F\<close> and \<open>y \<noteq> F\<close>, with the sprite bytes inside the memory, the cycle of
  Dxyn is the specified draw (\<open>draw_as_specified\<close>), the flag is 1 exactly when some
  XOR met a lit cell (\<open>snd_spec_xor\<close>), and a second draw of the same sprite puts the
  display back (\<open>double_draw_restores\<close>).
\<close>

lemma put_frame [simp]:
  "memory (put s r) = memory s" "I (put s r) = I s"
  "screen_width (put s r) = screen_width s" "screen_height (put s r) = screen_height s"
  "extended_mode (put s r) = extended_mode s"
  "display (put s r) = fst r" "V (put s r) 0xF = snd r"
  "i \<noteq> 0xF \<Longrightarrow> V (put s r) i = V s i"
  by (simp_all add: put_def)

lemma put_put [simp]: "put (put s r) r' = put s r'"
  by (simp add: put_def)

lemma spec_cell_put [simp]:
  "x \<noteq> 0xF \<Longrightarrow> y \<noteq> 0xF \<Longrightarrow> spec_cell (put s r) x y p = spec_cell s x y p"
  by (simp add: spec_cell_def)

lemma plot_put:
  assumes "x \<noteq> 0xF" and "y \<noteq> 0xF"
  shows "plot x y row col (put s r) = put s (spec_xor (spec_cell s x y (row, col)) r)"
  using assms
  by (simp add: plot_def spec_xor_def spec_cell_def put_def set_V_def set_pixel_def Let_def)

lemma fold_if_filter:
  "fold (\<lambda>a s. if P a then f a s else s) xs s = fold f (filter P xs) s"
  by (induction xs arbitrary: s) simp_all

lemma fold_plot_put:
  assumes "x \<noteq> 0xF" and "y \<noteq> 0xF"
  shows "fold (plot x y row) cols (put s r)
       = put s (fold spec_xor (map (spec_cell s x y) (map (Pair row) cols)) r)"
  using assms by (induction cols arbitrary: r) (simp_all add: plot_put)

lemma draw_row_put:
  assumes "x \<noteq> 0xF" and "y \<noteq> 0xF"
  shows "draw_row x y row w b (put s r)
       = put s (fold spec_xor (map (spec_cell s x y) (map (Pair row) (filter b [0..<w]))) r)"
  unfolding draw_row_def fold_if_filter
  using assms by (rule fold_plot_put)

lemma fold_row8_put:
  assumes "x \<noteq> 0xF" and "y \<noteq> 0xF" and "\<forall>row \<in> set rows. unat (I s) + row < MEMORY_SIZE"
  shows "fold (row8 x y w) rows (Inr (put s r))
       = Inr (put s (fold spec_xor (map (spec_cell s x y)
            (concat (map (\<lambda>row. map (Pair row) (filter (bit8 (memory s (unat (I s) + row))) [0..<w])) rows))) r))"
  using assms(3)
proof (induction rows arbitrary: r)
  case Nil
  then show ?case by simp
next
  case (Cons row rows)
  then show ?case
    by (simp add: row8_def draw_row_put [OF assms(1,2)])
qed

lemma row16_put:
  assumes "x \<noteq> 0xF" and "y \<noteq> 0xF" and "unat (I s) + row * 2 + 1 < MEMORY_SIZE"
  shows "row16 x y row (Inr (put s r))
       = Inr (put s (fold spec_xor (map (spec_cell s x y) (map (Pair row)
            (filter (bit16 (memory s (unat (I s) + row * 2)) (memory s (unat (I s) + row * 2 + 1)))
               [0..<16]))) r))"
  using assms(3) by (simp add: row16_def draw_row_put [OF assms(1,2)] del: upt.simps)

lemma fold_row16_put:
  assumes "x \<noteq> 0xF" and "y \<noteq> 0xF" and "\<forall>row \<in> set rows. unat (I s) + row * 2 + 1 < MEMORY_SIZE"
  shows "fold (row16 x y) rows (Inr (put s r))
       = Inr (put s (fold spec_xor (map (spec_cell s x y)
            (concat (map (\<lambda>row. map (Pair row)
               (filter (bit16 (memory s (unat (I s) + row * 2)) (memory s (unat (I s) + row * 2 + 1)))
                  [0..<16])) rows))) r))"
  using assms(3)
proof (induction rows arbitrary: r)
  case Nil
  then show ?case by simp
next
  case (Cons row rows)
  have b: "unat (I s) + row * 2 + 1 < MEMORY_SIZE" using Cons.prems by simp
  have rest: "\<forall>row \<in> set rows. unat (I s) + row * 2 + 1 < MEMORY_SIZE" using Cons.prems by simp
  show ?case
    unfolding fold_simps row16_put [OF assms(1,2) b] Cons.IH [OF rest]
    by (simp del: upt.simps)
qed

lemma op_D_spec:
  assumes "op_x opcode \<noteq> 0xF" and "op_y opcode \<noteq> 0xF"
    and "unat (I s) + (if extended_mode s \<noteq> 0 \<and> op_n opcode = 0 then 32 else op_n opcode) \<le> MEMORY_SIZE"
  shows "op_D opcode s = Inr (put s (spec_draw s (op_x opcode) (op_y opcode) (op_n opcode)))"
proof -
  have s0: "set_V 0xF 0 s = put s (display s, 0)"
    by (simp add: set_V_def put_def)
  show ?thesis
  proof (cases "extended_mode s \<noteq> 0 \<and> op_n opcode = 0")
    case True
    with assms(3) have b: "\<forall>row \<in> set [0..<16]. unat (I s) + row * 2 + 1 < MEMORY_SIZE"
      by auto
    show ?thesis
      using True
      by (simp add: op_D_def Let_def s0 fold_row16_put [OF assms(1,2) b] spec_draw_def spec_sprite_def
          del: upt.simps)
  next
    case False
    with assms(3) have b: "\<forall>row \<in> set [0..<op_n opcode]. unat (I s) + row < MEMORY_SIZE"
      by auto
    show ?thesis
      using False
      by (auto simp add: op_D_def Let_def s0 fold_row8_put [OF assms(1,2) b] spec_draw_def spec_sprite_def
          simp del: upt.simps)
  qed
qed


lemma spec_cell_cong:
  assumes "V t x = V s x" and "V t y = V s y"
    and "screen_width t = screen_width s" and "screen_height t = screen_height s"
  shows "spec_cell t x y = spec_cell s x y"
  using assms by (simp add: fun_eq_iff spec_cell_def)

lemma spec_sprite_cong:
  assumes "memory t = memory s" and "I t = I s" and "extended_mode t = extended_mode s"
  shows "spec_sprite t n = spec_sprite s n"
  using assms by (simp add: spec_sprite_def)

lemma spec_draw_frame [simp]:
  "spec_draw (s\<lparr> pc := p \<rparr>) x y n = spec_draw s x y n"
  by (simp add: spec_draw_def spec_sprite_cong [of "s\<lparr> pc := p \<rparr>" s]
      spec_cell_cong [of "s\<lparr> pc := p \<rparr>" x s y])

lemma draw_as_specified:
  assumes "fetchOpcode s = Inr opcode" and "opcode AND 0xF000 = 0xD000"
    and "op_x opcode \<noteq> 0xF" and "op_y opcode \<noteq> 0xF"
    and "unat (I s) + (if extended_mode s \<noteq> 0 \<and> op_n opcode = 0 then 32 else op_n opcode) \<le> MEMORY_SIZE"
  shows "emulateCycle rnd polled s =
           Inr (tick (s\<lparr> pc := pc s + 2,
                  V := (V s)(0xF := snd (spec_draw s (op_x opcode) (op_y opcode) (op_n opcode))),
                  display := fst (spec_draw s (op_x opcode) (op_y opcode) (op_n opcode)) \<rparr>))"
proof -
  have "op_D opcode (s\<lparr> pc := pc s + 2 \<rparr>)
      = Inr (put (s\<lparr> pc := pc s + 2 \<rparr>) (spec_draw s (op_x opcode) (op_y opcode) (op_n opcode)))"
    using op_D_spec [of opcode "s\<lparr> pc := pc s + 2 \<rparr>"] assms(3,4,5) by simp
  then show ?thesis
    using assms(1,2)
    by (simp add: emulateCycle_def ext_dispatch_None execute_def Let_def put_def)
qed

lemma fst_spec_xor: "fst (fold spec_xor ts r) = fold toggle ts (fst r)"
  by (induction ts arbitrary: r) (simp_all add: spec_xor_def toggle_def)

lemma toggle_toggle: "toggle i (toggle i d) = d"
  by (simp add: toggle_def fun_eq_iff xor.assoc)

lemma toggle_commute: "toggle i (toggle j d) = toggle j (toggle i d)"
  by (cases "i = j") (auto simp: toggle_def fun_eq_iff)

lemma toggle_fold: "toggle i (fold toggle ts d) = fold toggle ts (toggle i d)"
  by (induction ts arbitrary: d) (simp_all add: toggle_commute)

lemma fold_toggle_twice: "fold toggle ts (fold toggle ts d) = d"
proof (induction ts arbitrary: d)
  case Nil
  then show ?case by simp
next
  case (Cons t ts)
  have "fold toggle (t # ts) (fold toggle (t # ts) d)
      = fold toggle ts (toggle t (fold toggle ts (toggle t d)))" by simp
  also have "\<dots> = fold toggle ts (fold toggle ts (toggle t (toggle t d)))"
    by (simp add: toggle_fold)
  also have "\<dots> = d" by (simp add: toggle_toggle Cons.IH)
  finally show ?case .
qed

lemma snd_spec_xor:
  "snd (fold spec_xor ts r) =
     (if \<exists>k < length ts. fold toggle (take k ts) (fst r) (ts ! k) = 1 then 1 else snd r)"
proof (induction ts arbitrary: r)
  case Nil
  then show ?case by simp
next
  case (Cons t ts)
  let ?r1 = "spec_xor t r"
  have f: "fst ?r1 = toggle t (fst r)" by (simp add: spec_xor_def toggle_def)
  have ex: "(\<exists>k < length (t # ts). fold toggle (take k (t # ts)) (fst r) ((t # ts) ! k) = 1)
      \<longleftrightarrow> fst r t = 1 \<or> (\<exists>k < length ts. fold toggle (take k ts) (toggle t (fst r)) (ts ! k) = 1)"
    (is "?L \<longleftrightarrow> ?R")
  proof
    assume ?L
    then obtain k where k: "k < length (t # ts)"
      "fold toggle (take k (t # ts)) (fst r) ((t # ts) ! k) = 1" by blast
    show ?R
    proof (cases k)
      case 0
      with k show ?thesis by simp
    next
      case (Suc j)
      with k show ?thesis by auto
    qed
  next
    assume ?R
    then show ?L
    proof
      assume "fst r t = 1"
      then have "fold toggle (take 0 (t # ts)) (fst r) ((t # ts) ! 0) = 1" by simp
      then show ?L by blast
    next
      assume "\<exists>k < length ts. fold toggle (take k ts) (toggle t (fst r)) (ts ! k) = 1"
      then obtain j where "j < length ts" "fold toggle (take j ts) (toggle t (fst r)) (ts ! j) = 1"
        by blast
      then have "Suc j < length (t # ts)
          \<and> fold toggle (take (Suc j) (t # ts)) (fst r) ((t # ts) ! Suc j) = 1" by simp
      then show ?L by blast
    qed
  qed
  have "snd (fold spec_xor (t # ts) r) = snd (fold spec_xor ts ?r1)" by simp
  also have "\<dots> = (if \<exists>k < length ts. fold toggle (take k ts) (fst ?r1) (ts ! k) = 1
                    then 1 else snd ?r1)" by (rule Cons.IH)
  also have "\<dots> = (if ?L then 1 else snd r)"
    unfolding ex f by (auto simp: spec_xor_def)
  finally show ?case .
qed

lemma double_draw_restores:
  assumes "fetchOpcode s = Inr opcode" and "opcode AND 0xF000 = 0xD000"
    and "op_x opcode \<noteq> 0xF" and "op_y opcode \<noteq> 0xF"
    and "unat (I s) + (if extended_mode s \<noteq> 0 \<and> op_n opcode = 0 then 32 else op_n opcode) \<le> MEMORY_SIZE"
    and "emulateCycle rnd polled s = Inr s1"
    and "fetchOpcode s1 = Inr opcode"
  shows "\<exists>s2. emulateCycle rnd' polled' s1 = Inr s2 \<and> display s2 = display s
           \<and> V s2 0xF = snd (spec_draw s1 (op_x opcode) (op_y opcode) (op_n opcode))"
proof -
  let ?x = "op_x opcode" and ?y = "op_y opcode" and ?n = "op_n opcode"
  have s1: "s1 = tick (s\<lparr> pc := pc s + 2, V := (V s)(0xF := snd (spec_draw s ?x ?y ?n)),
                  display := fst (spec_draw s ?x ?y ?n) \<rparr>)"
    using draw_as_specified [OF assms(1-5), of rnd polled] assms(6) by simp
  have "spec_cell s1 ?x ?y = spec_cell s ?x ?y"
    using assms(3,4) unfolding s1 by (intro spec_cell_cong) simp_all
  moreover have "spec_sprite s1 ?n = spec_sprite s ?n"
    unfolding s1 by (intro spec_sprite_cong) simp_all
  ultimately have same:
    "map (spec_cell s1 ?x ?y) (spec_sprite s1 ?n) = map (spec_cell s ?x ?y) (spec_sprite s ?n)"
    by simp
  have b1: "unat (I s1) + (if extended_mode s1 \<noteq> 0 \<and> ?n = 0 then 32 else ?n) \<le> MEMORY_SIZE"
    using assms(5) unfolding s1 by simp
  have d1: "display s1 = fold toggle (map (spec_cell s ?x ?y) (spec_sprite s ?n)) (display s)"
    unfolding s1 by (simp add: spec_draw_def fst_spec_xor)
  have "fst (spec_draw s1 ?x ?y ?n) = display s"
    unfolding spec_draw_def same fst_spec_xor by (simp add: d1 fold_toggle_twice)
  then show ?thesis
    using draw_as_specified [OF assms(7,2,3,4) b1, of rnd' polled'] by simp
qed

text \<open>The two lemmas at \<open>D011\<close> drawn twice at the corner (63, 31).\<close>

lemma demo_plain_facts:
  "fetchOpcode demo_plain = Inr 0xD011" "(0xD011 :: u16) AND 0xF000 = 0xD000"
  "op_x 0xD011 = 0" "op_y 0xD011 = 1" "op_n 0xD011 = 1"
  "extended_mode demo_plain = 0" "unat (I demo_plain) = 0x204"
  by (simp_all add: demo_plain_def fetchOpcode_def boot_def store_rom_def initializeChip8_def
      static_state_def copy_in_def op_x_def op_y_def op_n_def)

lemma demo_plain_draw:
  "spec_draw demo_plain 0 1 1 = ((\<lambda>_. 0)(31 * 128 + 63 := 1, 31 * 128 := 1), 0)"
  by (simp add: spec_draw_def spec_sprite_def spec_cell_def spec_xor_def bit8_def demo_plain_def
      boot_def store_rom_def initializeChip8_def static_state_def copy_in_def zero_cells_def upt_rec
      fun_eq_iff)

lemma draw_as_specified_example:
  "emulateCycle 0 [] demo_plain =
     Inr (tick (demo_plain\<lparr> pc := 0x202, V := (V demo_plain)(0xF := 0),
            display := (\<lambda>_. 0)(31 * 128 + 63 := 1, 31 * 128 := 1) \<rparr>))"
proof -
  have h: "op_x 0xD011 \<noteq> 0xF" "op_y 0xD011 \<noteq> 0xF"
    "unat (I demo_plain)
       + (if extended_mode demo_plain \<noteq> 0 \<and> op_n 0xD011 = 0 then 32 else op_n 0xD011)
     \<le> MEMORY_SIZE"
    by (simp_all add: demo_plain_facts)
  have p: "pc demo_plain + 2 = 0x202"
    by (simp add: demo_plain_def boot_simps)
  show ?thesis
    unfolding draw_as_specified [OF demo_plain_facts(1,2) h, of 0 "[]"] demo_plain_facts(3,4,5)
      demo_plain_draw p
    by simp
qed

lemma double_draw_restores_example:
  "emulateCycle 0 [] demo_plain = Inr demo_plain_drawn
   \<and> display demo_plain_drawn (31 * 128) = 1
   \<and> map_sum id (\<lambda>t. (display t = display demo_plain, V t 0xF)) (emulateCycle 0 [] demo_plain_drawn)
       = Inr (True, 1)"
proof -
  have h: "op_x 0xD011 \<noteq> 0xF" "op_y 0xD011 \<noteq> 0xF"
    "unat (I demo_plain)
       + (if extended_mode demo_plain \<noteq> 0 \<and> op_n 0xD011 = 0 then 32 else op_n 0xD011)
     \<le> MEMORY_SIZE"
    by (simp_all add: demo_plain_facts)
  have c: "emulateCycle 0 [] demo_plain = Inr demo_plain_drawn"
    unfolding draw_as_specified_example demo_plain_drawn_def by simp
  have f: "fetchOpcode demo_plain_drawn = Inr 0xD011"
    by (simp add: demo_plain_drawn_def demo_plain_def fetchOpcode_def boot_def store_rom_def
        initializeChip8_def static_state_def copy_in_def)
  have v: "snd (spec_draw demo_plain_drawn 0 1 1) = 1"
    by (simp add: spec_draw_def spec_sprite_def spec_cell_def spec_xor_def bit8_def
        demo_plain_drawn_def demo_plain_def boot_def store_rom_def initializeChip8_def
        static_state_def copy_in_def zero_cells_def upt_rec)
  obtain s2 where s2: "emulateCycle 0 [] demo_plain_drawn = Inr s2"
    "display s2 = display demo_plain"
    "V s2 0xF = snd (spec_draw demo_plain_drawn (op_x 0xD011) (op_y 0xD011) (op_n 0xD011))"
    using double_draw_restores [OF demo_plain_facts(1,2) h c f, of 0 "[]"] by blast
  have "V s2 0xF = 1" using s2(3) unfolding demo_plain_facts(3,4,5) v .
  with s2 c show ?thesis by (simp add: demo_plain_drawn_def)
qed

section \<open>The sprite draw with the flag register as a coordinate\<close>

lemmas eval_defs = emulateCycle_def fetchOpcode_def ext_dispatch_def execute_def op_D_def
  op_x_def op_y_def op_n_def row8_def draw_row_def bit8_def plot_def set_V_def set_pixel_def
  tick_def Let_def boot_def store_rom_def initializeChip8_def static_state_def copy_in_def
  zero_cells_def

text \<open>
  Claim C1 at \<open>DF01\<close>. All registers are zero, so the sprite \<open>C0\<close> (columns 0 and 1)
  belongs at the cells (0, 0) and (1, 0). Cell (0, 0) is lit and the first pixel
  collides, which sets \<open>VF\<close>; the second pixel is then placed with \<open>V[x] = VF = 1\<close>, at
  cell (2, 0), and cell (1, 0) is left alone.
\<close>

theorem draw_flag_register_moves_sprite:
  "V demo_draw 0xF = 0 \<and> V demo_draw 0 = 0 \<and> memory demo_draw 0x202 = 0xC0
   \<and> display demo_draw 0 = 1 \<and> display demo_draw 1 = 0 \<and> display demo_draw 2 = 0
   \<and> fetchOpcode demo_draw = Inr 0xDF01
   \<and> map_sum id (\<lambda>t. (display t 0, display t 1, display t 2, V t 0xF)) (emulateCycle 0 [] demo_draw)
       = Inr (0, 0, 1, 1)"
  by (simp add: demo_draw_def eval_defs upt_rec)

text \<open>
  Claim C5 at \<open>DF01\<close> drawn twice. The first draw lights the cells (0, 0) and (1, 0) of
  a dark display and leaves \<open>VF = 0\<close>; \<open>I\<close>, the registers and the memory are the same
  before the second draw. The second draw collides at (0, 0) and then places its
  second pixel at (2, 0): the display ends with (1, 0) and (2, 0) lit, not dark.
\<close>

theorem double_draw_flag_register:
  "V demo_twice 0xF = 0 \<and> V demo_twice 0 = 0 \<and> memory demo_twice 0x204 = 0xC0
   \<and> display demo_twice = (\<lambda>_. 0)
   \<and> fetchOpcode demo_twice = Inr 0xDF01
   \<and> emulateCycle 0 [] demo_twice = Inr demo_twice_drawn
   \<and> V demo_twice_drawn 0xF = 0 \<and> V demo_twice_drawn 0 = 0 \<and> I demo_twice_drawn = I demo_twice
   \<and> memory demo_twice_drawn = memory demo_twice
   \<and> fetchOpcode demo_twice_drawn = Inr 0xDF01
   \<and> map_sum id (\<lambda>t. (display t 0, display t 1, display t 2, V t 0xF))
        (emulateCycle 0 [] demo_twice_drawn) = Inr (0, 1, 1, 1)"
  by (simp add: demo_twice_drawn_def demo_twice_def eval_defs upt_rec fun_eq_iff)

end
